theory Spec2Isabelle
  imports Complex_Main
begin

section \<open>The online matrix sketch model of \<^verbatim>\<open>core/online_sketch.py\<close>\<close>

text \<open>
  The class \<^verbatim>\<open>OnlineSketch\<close> is embedded as a record of its attributes and one function
  per method. Numbers that are floating point in the source are real numbers here; every
  exception of the source is a value of \<open>error\<close>. A method that mutates the object and may
  raise returns the pair of its outcome and the object as the exception leaves it, since
  Python keeps every assignment made before the \<^verbatim>\<open>raise\<close>. The normal samples that
  \<^verbatim>\<open>np.random.normal\<close> produces are read from a stream carried by the state.
\<close>

subsection \<open>Data\<close>

datatype error = KeyError | IndexError | ValueError | AttributeError | LinAlgError

type_synonym vec = "real list"

text \<open>A two-dimensional array is the list of its rows.\<close>

type_synonym mat = "real list list"

text \<open>The dictionary \<^verbatim>\<open>contexts\<close>: the sizes of the three context blocks.\<close>

record contexts =
  c_user :: nat
  c_others :: nat
  c_item :: nat

text \<open>
  One sample \<^verbatim>\<open>d\<close>, a dictionary read at the keys \<^verbatim>\<open>u_index\<close>, \<^verbatim>\<open>i_index\<close>,
  \<^verbatim>\<open>user\<close>, \<^verbatim>\<open>others\<close> and \<^verbatim>\<open>item\<close>; a key that is absent is \<open>None\<close>.
\<close>

record event =
  d_u_index :: "int option"
  d_i_index :: "int option"
  d_user :: "vec option"
  d_others :: "vec option"
  d_item :: "vec option"

text \<open>
  The attribute \<^verbatim>\<open>i_mat\<close> is a scipy CSR matrix after \<^verbatim>\<open>clear\<close> and after the second
  and later insertions, and a dense numpy array right after an insertion that found it
  empty. The two differ in what \<^verbatim>\<open>.size\<close> means: the number of stored (non-zero) entries
  of a CSR matrix, the number of all elements of a dense array.
\<close>

datatype imat = Csr mat | Nd mat

fun imat_rows :: "imat \<Rightarrow> mat" where
  "imat_rows (Csr M) = M"
| "imat_rows (Nd M) = M"

definition ncols :: "mat \<Rightarrow> nat" where
  "ncols M = (case M of [] \<Rightarrow> 0 | r # _ \<Rightarrow> length r)"

fun imat_size :: "imat \<Rightarrow> nat" where
  "imat_size (Csr M) = length (filter (\<lambda>x. x \<noteq> 0) (concat M))"
| "imat_size (Nd M) = length M * ncols M"

text \<open>
  The object. \<open>m_U\<close> is \<open>None\<close> while the attribute \<^verbatim>\<open>U\<close> does not exist;
  \<open>rng\<close> is the stream of samples still to be drawn.
\<close>

record model =
  contexts :: contexts
  m_p :: nat
  m_k :: nat
  ell :: nat
  n_user :: nat
  users :: "int \<rightharpoonup> int set"
  n_item :: nat
  items :: "int \<rightharpoonup> unit"
  i_mat :: imat
  m_B :: mat
  m_R :: mat
  m_U :: "mat option"
  rng :: "nat \<Rightarrow> real"

subsection \<open>Construction\<close>

text \<open>
  \<^verbatim>\<open>int(np.sqrt(self.k))\<close>: the integer part of the square root, found by searching
  downwards from \<open>k\<close>.
\<close>

fun sqrt_below :: "nat \<Rightarrow> nat \<Rightarrow> nat" where
  "sqrt_below k 0 = 0"
| "sqrt_below k (Suc n) = (if Suc n * Suc n \<le> k then Suc n else sqrt_below k n)"

definition int_sqrt :: "nat \<Rightarrow> nat" where
  "int_sqrt k = sqrt_below k k"

text \<open>\<^verbatim>\<open>np.random.normal(0., 1 / self.k, (rows, cols))\<close>: the next \<open>rows * cols\<close> samples.\<close>

definition normal :: "nat \<Rightarrow> nat \<Rightarrow> model \<Rightarrow> mat \<times> model" where
  "normal nr nc st =
     (map (\<lambda>i. map (\<lambda>j. rng st (i * nc + j)) [0..<nc]) [0..<nr],
      st\<lparr>rng := (\<lambda>n. rng st (n + nr * nc))\<rparr>)"

definition clear :: "model \<Rightarrow> model" where
  "clear st =
     (let st1 = st\<lparr>n_user := 0, users := Map.empty, n_item := 0, items := Map.empty,
                    i_mat := Csr [[]],
                    m_B := replicate (m_k st) (replicate (ell st) 0)\<rparr>;
          (M, st2) = normal (m_k st1) (m_p st1) st1
      in st2\<lparr>m_R := M\<rparr>)"

definition init :: "contexts \<Rightarrow> (nat \<Rightarrow> real) \<Rightarrow> model" where
  "init c g =
     clear \<lparr>contexts = c, m_p = c_user c + c_others c + c_item c,
            m_k = 40, ell = int_sqrt 40,
            n_user = 0, users = Map.empty, n_item = 0, items = Map.empty,
            i_mat = Csr [[]], m_B = [], m_R = [], m_U = None, rng = g\<rparr>"

subsection \<open>Registration: \<^verbatim>\<open>_Base__check\<close>\<close>

text \<open>
  \<^verbatim>\<open>np.concatenate((R[:, :offset], col, R[:, offset:]), axis=1)\<close> with a column \<open>col\<close>:
  the arrays must have the same number of rows.
\<close>

definition insert_col :: "nat \<Rightarrow> vec \<Rightarrow> mat \<Rightarrow> error + mat" where
  "insert_col offset col M =
     (if length M = length col
      then Inr (map2 (\<lambda>r c. take offset r @ [c] @ drop offset r) M col)
      else Inl ValueError)"

text \<open>\<^verbatim>\<open>sp.hstack((M, v))\<close> with a column \<open>v\<close>: the row counts must agree.\<close>

definition hstack_col :: "mat \<Rightarrow> vec \<Rightarrow> error + mat" where
  "hstack_col M v =
     (if length M = length v then Inr (map2 (\<lambda>r x. r @ [x]) M v) else Inl ValueError)"

text \<open>Lines 47 to 50: a fresh column of \<open>R\<close> for a new user.\<close>

definition grow_R :: "nat \<Rightarrow> model \<Rightarrow> error option \<times> model" where
  "grow_R offset st =
     (let (col, st1) = normal (m_k st) 1 st
      in case insert_col offset (map hd col) (m_R st1) of
           Inl e \<Rightarrow> (Some e, st1)
         | Inr M \<Rightarrow> (None, st1\<lparr>m_R := M\<rparr>))"

text \<open>Lines 43 to 45 and lines 54 to 56: the registry entry and the counters.\<close>

definition new_user :: "int \<Rightarrow> model \<Rightarrow> model" where
  "new_user u st = st\<lparr>users := (users st)(u \<mapsto> {}),
                        n_user := n_user st + 1, m_p := m_p st + 1\<rparr>"

definition new_item :: "int \<Rightarrow> model \<Rightarrow> model" where
  "new_item i st = st\<lparr>items := (items st)(i \<mapsto> ()),
                        n_item := n_item st + 1, m_p := m_p st + 1\<rparr>"

definition check_user :: "model \<Rightarrow> event \<Rightarrow> error option \<times> model" where
  "check_user st d =
     (case d_u_index d of
        None \<Rightarrow> (Some KeyError, st)
      | Some u \<Rightarrow>
          if u \<in> dom (users st) then (None, st)
          else let st1 = new_user u st in grow_R (n_user st1 - 1) st1)"

text \<open>Lines 58 to 67: the column of a new item enters \<open>i_mat\<close>.\<close>

definition grow_i_mat :: "vec \<Rightarrow> model \<Rightarrow> error option \<times> model" where
  "grow_i_mat it st =
     (let i_vec = replicate (n_item st) 0 @ it
      in if imat_size (i_mat st) = 0 then (None, st\<lparr>i_mat := Nd (map (\<lambda>x. [x]) i_vec)\<rparr>)
         else
           let M = imat_rows (i_mat st);
               z = replicate (ncols M) 0;
               M1 = take (n_item st - 1) M @ [z] @ drop (n_item st - 1) M;
               st1 = st\<lparr>i_mat := Csr M1\<rparr>
           in case hstack_col M1 i_vec of
                Inl e \<Rightarrow> (Some e, st1)
              | Inr M2 \<Rightarrow> (None, st1\<lparr>i_mat := Csr M2\<rparr>))"

definition check_item :: "model \<Rightarrow> event \<Rightarrow> error option \<times> model" where
  "check_item st d =
     (case d_i_index d of
        None \<Rightarrow> (Some KeyError, st)
      | Some i \<Rightarrow>
          if i \<in> dom (items st) then (None, st)
          else
            let st1 = new_item i st
            in case d_item d of
                 None \<Rightarrow> (Some KeyError, st1)
               | Some it \<Rightarrow>
                   (case grow_i_mat it st1 of
                      (Some e, st2) \<Rightarrow> (Some e, st2)
                    | (None, st2) \<Rightarrow>
                        grow_R (n_user st2 + c_user (contexts st2) + c_others (contexts st2)
                                  + n_item st2 - 1) st2))"

definition check :: "model \<Rightarrow> event \<Rightarrow> error option \<times> model" where
  "check st d =
     (case check_user st d of
        (Some e, st1) \<Rightarrow> (Some e, st1)
      | (None, st1) \<Rightarrow> check_item st1 d)"

text \<open>A sequence of registrations; the first exception ends it.\<close>

fun check_all :: "model \<Rightarrow> event list \<Rightarrow> error option \<times> model" where
  "check_all st [] = (None, st)"
| "check_all st (d # ds) =
     (case check st d of
        (Some e, st1) \<Rightarrow> (Some e, st1)
      | (None, st1) \<Rightarrow> check_all st1 ds)"

subsection \<open>Array operations of numpy, scipy and scikit-learn\<close>

text \<open>
  Assignment \<^verbatim>\<open>v[i] = 1.\<close> to a one-dimensional array: a negative index counts from the
  end, an index outside the array raises.
\<close>

definition py_index :: "nat \<Rightarrow> int \<Rightarrow> error + nat" where
  "py_index n i =
     (let j = (if i < 0 then int n + i else i)
      in if 0 \<le> j \<and> j < int n then Inr (nat j) else Inl IndexError)"

definition set_one :: "vec \<Rightarrow> int \<Rightarrow> error + vec" where
  "set_one v i = (case py_index (length v) i of Inl e \<Rightarrow> Inl e | Inr j \<Rightarrow> Inr (v[j := 1]))"

definition dot :: "vec \<Rightarrow> vec \<Rightarrow> real" where
  "dot a b = sum_list (map2 (*) a b)"

definition column :: "mat \<Rightarrow> nat \<Rightarrow> vec" where
  "column M j = map (\<lambda>r. r ! j) M"

definition mat_T :: "mat \<Rightarrow> mat" where
  "mat_T M = map (column M) [0..<ncols M]"

text \<open>\<^verbatim>\<open>np.dot(M, v)\<close> for a matrix and a vector: every row must be as long as \<open>v\<close>.\<close>

definition mat_vec :: "mat \<Rightarrow> vec \<Rightarrow> error + vec" where
  "mat_vec M v =
     (if list_all (\<lambda>r. length r = length v) M then Inr (map (\<lambda>r. dot r v) M)
      else Inl ValueError)"

text \<open>\<^verbatim>\<open>np.dot(M, N)\<close> and \<^verbatim>\<open>safe_sparse_dot(M, N)\<close> for two matrices.\<close>

definition mat_mul :: "mat \<Rightarrow> mat \<Rightarrow> error + mat" where
  "mat_mul M N =
     (if list_all (\<lambda>r. length r = length N) M
      then Inr (map (\<lambda>r. map (\<lambda>c. dot r c) (mat_T N)) M)
      else Inl ValueError)"

definition diag :: "vec \<Rightarrow> mat" where
  "diag s = map (\<lambda>i. map (\<lambda>j. if i = j then s ! i else 0) [0..<length s]) [0..<length s]"

definition identity :: "nat \<Rightarrow> mat" where
  "identity n = map (\<lambda>i. map (\<lambda>j. if i = j then 1 else 0) [0..<n]) [0..<n]"

definition l2_norm :: "vec \<Rightarrow> real" where
  "l2_norm v = sqrt (sum_list (map (\<lambda>x. x * x) v))"

text \<open>
  \<^verbatim>\<open>preprocessing.normalize(..., norm='l2')\<close> on one vector: a norm of zero is replaced
  by one before the division, so the zero vector stays as it is.
\<close>

definition normalize :: "vec \<Rightarrow> vec" where
  "normalize v = (let n = l2_norm v; n1 = (if n = 0 then 1 else n) in map (\<lambda>x. x / n1) v)"

text \<open>
  The input validation of \<^verbatim>\<open>normalize\<close> refuses an array without columns. Line 84
  normalizes the single row \<^verbatim>\<open>np.array([y])\<close>, line 121 every column of \<open>Y\<close>.
\<close>

definition normalize_row :: "vec \<Rightarrow> error + vec" where
  "normalize_row y = (if y = [] then Inl ValueError else Inr (normalize y))"

definition normalize_columns :: "mat \<Rightarrow> error + mat" where
  "normalize_columns Y =
     (if ncols Y = 0 then Inl ValueError else Inr (mat_T (map normalize (mat_T Y))))"

text \<open>\<^verbatim>\<open>np.isclose(x, 0)\<close> with the default tolerances: \<open>|x| \<le> 1e-8\<close>.\<close>

definition isclose0 :: "real \<Rightarrow> bool" where
  "isclose0 x = (\<bar>x\<bar> \<le> 1 / 10 ^ 8)"

text \<open>\<^verbatim>\<open>np.where(np.isclose(B, 0).all(0) == 1)[0]\<close>: the columns that are all close to 0.\<close>

definition zero_cols :: "mat \<Rightarrow> nat list" where
  "zero_cols M = filter (\<lambda>j. list_all isclose0 (column M j)) [0..<ncols M]"

text \<open>
  \<^verbatim>\<open>B[:, j] = y\<close>: the index is checked as above, and \<open>y\<close> has one entry for each
  row of \<open>B\<close> (both have \<open>k\<close> entries, so numpy has nothing to broadcast).
\<close>

definition set_column :: "mat \<Rightarrow> int \<Rightarrow> vec \<Rightarrow> error + mat" where
  "set_column M j y =
     (case py_index (ncols M) j of
        Inl e \<Rightarrow> Inl e
      | Inr c \<Rightarrow>
          if length y = length M then Inr (map2 (\<lambda>r x. r[c := x]) M y) else Inl ValueError)"

text \<open>\<^verbatim>\<open>M[:, targets]\<close>: the columns at the given indices, each index checked.\<close>

fun py_indices :: "nat \<Rightarrow> int list \<Rightarrow> error + nat list" where
  "py_indices n [] = Inr []"
| "py_indices n (t # ts) =
     (case py_index n t of
        Inl e \<Rightarrow> Inl e
      | Inr j \<Rightarrow> (case py_indices n ts of Inl e \<Rightarrow> Inl e | Inr js \<Rightarrow> Inr (j # js)))"

definition select_columns :: "mat \<Rightarrow> int list \<Rightarrow> error + mat" where
  "select_columns M ts =
     (case py_indices (ncols M) ts of
        Inl e \<Rightarrow> Inl e
      | Inr js \<Rightarrow> Inr (map (\<lambda>r. map (\<lambda>j. r ! j) js) M))"

subsection \<open>The sketch update: \<^verbatim>\<open>_Base__update\<close>\<close>

text \<open>Lines 75 to 81: the feature vector of one sample.\<close>

definition features :: "model \<Rightarrow> event \<Rightarrow> error + vec" where
  "features st d =
     (case d_user d of None \<Rightarrow> Inl KeyError | Some us \<Rightarrow>
      case d_u_index d of None \<Rightarrow> Inl KeyError | Some ui \<Rightarrow>
      case set_one (replicate (n_user st) 0 @ us) ui of Inl e \<Rightarrow> Inl e | Inr u \<Rightarrow>
      case d_item d of None \<Rightarrow> Inl KeyError | Some it \<Rightarrow>
      case d_i_index d of None \<Rightarrow> Inl KeyError | Some ii \<Rightarrow>
      case set_one (replicate (n_item st) 0 @ it) ii of Inl e \<Rightarrow> Inl e | Inr i \<Rightarrow>
      case d_others d of None \<Rightarrow> Inl KeyError | Some os \<Rightarrow>
      Inr (u @ os @ i))"

text \<open>Lines 83 and 84: the projected and normalized observation.\<close>

definition observation :: "model \<Rightarrow> event \<Rightarrow> error + vec" where
  "observation st d =
     (case features st d of Inl e \<Rightarrow> Inl e | Inr x \<Rightarrow>
      case mat_vec (m_R st) x of Inl e \<Rightarrow> Inl e | Inr y \<Rightarrow>
      normalize_row y)"

text \<open>Lines 87 and 88: the column of \<open>B\<close> that receives the observation.\<close>

definition target_column :: "model \<Rightarrow> int" where
  "target_column st =
     (case zero_cols (m_B st) of [] \<Rightarrow> int (ell st) - 1 | j # _ \<Rightarrow> int j)"

text \<open>
  Lines 95 to 102, after the decomposition returned \<open>U\<close> and \<open>s\<close>: the basis is the
  first \<open>ell\<close> columns, the singular values are shrunk and \<open>B\<close> is rebuilt. Line 99
  raises on an empty \<open>s\<close>. Line 100 takes the square root of \<open>s\<^sup>2 - delta\<close> as it is:
  numpy returns nan where it is negative, which cannot happen for singular values in
  descending order, the only ones that the properties below are about.
\<close>

definition shrink :: "vec \<Rightarrow> vec" where
  "shrink s = (let delta = (last s)\<^sup>2 in map (\<lambda>x. sqrt (x\<^sup>2 - delta)) s)"

definition rebuild :: "mat \<Rightarrow> vec \<Rightarrow> model \<Rightarrow> error option \<times> model" where
  "rebuild Uf sf st =
     (let st1 = st\<lparr>m_U := Some (map (take (ell st)) Uf)\<rparr>;
          s = take (ell st) sf
      in if s = [] then (Some IndexError, st1)
         else case mat_mul (map (take (ell st)) Uf) (diag (shrink s)) of
                Inl e \<Rightarrow> (Some e, st1)
              | Inr M \<Rightarrow> (None, st1\<lparr>m_B := M\<rparr>))"

text \<open>
  The decomposition \<^verbatim>\<open>ln.svd(B, full_matrices=False)\<close> is a parameter: it returns
  \<open>(U, s, V)\<close> or fails to converge.
\<close>

type_synonym svd = "mat \<Rightarrow> error + (mat \<times> vec \<times> mat)"

definition update :: "svd \<Rightarrow> model \<Rightarrow> event \<Rightarrow> error option \<times> model" where
  "update svd st d =
     (case observation st d of Inl e \<Rightarrow> (Some e, st) | Inr y \<Rightarrow>
      case set_column (m_B st) (target_column st) y of Inl e \<Rightarrow> (Some e, st) | Inr B1 \<Rightarrow>
      let st1 = st\<lparr>m_B := B1\<rparr>
      in case svd B1 of Inl e \<Rightarrow> (Some e, st1) | Inr (Uf, sf, Vf) \<Rightarrow> rebuild Uf sf st1)"

subsection \<open>Scoring: \<^verbatim>\<open>_Base__recommend\<close>\<close>

text \<open>Lines 107 to 119: the stacked matrix with one column for each target.\<close>

definition candidates :: "model \<Rightarrow> event \<Rightarrow> int list \<Rightarrow> error + mat" where
  "candidates st d ts =
     (case select_columns (imat_rows (i_mat st)) ts of Inl e \<Rightarrow> Inl e | Inr im \<Rightarrow>
      case d_user d of None \<Rightarrow> Inl KeyError | Some us \<Rightarrow>
      case d_others d of None \<Rightarrow> Inl KeyError | Some os \<Rightarrow>
      case d_u_index d of None \<Rightarrow> Inl KeyError | Some ui \<Rightarrow>
      case set_one (replicate (n_user st) 0 @ us @ os) ui of Inl e \<Rightarrow> Inl e | Inr u \<Rightarrow>
      Inr (map (\<lambda>x. replicate (length ts) x) u @ im))"

text \<open>\<^verbatim>\<open>np.identity(k) - np.dot(U, U.T)\<close>: both are \<open>k\<close> by \<open>k\<close>.\<close>

definition residual_projector :: "nat \<Rightarrow> mat \<Rightarrow> error + mat" where
  "residual_projector n Um =
     (case mat_mul Um (mat_T Um) of Inl e \<Rightarrow> Inl e | Inr P \<Rightarrow>
      if length P = n then Inr (map2 (map2 (-)) (identity n) P) else Inl ValueError)"

text \<open>
  Lines 120 to 126: the scores. The attribute \<^verbatim>\<open>U\<close> is read on line 123; it exists
  only after an update. The ranking \<^verbatim>\<open>_Base__scores2recos\<close> of the base class is a
  parameter.
\<close>

definition scores :: "model \<Rightarrow> event \<Rightarrow> int list \<Rightarrow> error + vec" where
  "scores st d ts =
     (case candidates st d ts of Inl e \<Rightarrow> Inl e | Inr Y0 \<Rightarrow>
      case mat_mul (m_R st) Y0 of Inl e \<Rightarrow> Inl e | Inr Y1 \<Rightarrow>
      case normalize_columns Y1 of Inl e \<Rightarrow> Inl e | Inr Y \<Rightarrow>
      case m_U st of None \<Rightarrow> Inl AttributeError | Some Um \<Rightarrow>
      case residual_projector (m_k st) Um of Inl e \<Rightarrow> Inl e | Inr X \<Rightarrow>
      case mat_mul X Y of Inl e \<Rightarrow> Inl e | Inr A \<Rightarrow>
      Inr (map l2_norm (mat_T A)))"

definition recommend ::
  "(vec \<Rightarrow> int list \<Rightarrow> nat \<Rightarrow> 'r) \<Rightarrow> model \<Rightarrow> event \<Rightarrow> int list \<Rightarrow> nat \<Rightarrow> error + 'r" where
  "recommend scores2recos st d ts at_n =
     (case scores st d ts of Inl e \<Rightarrow> Inl e | Inr sc \<Rightarrow> Inr (scores2recos sc ts at_n))"

subsection \<open>Objects that have seen no update\<close>

text \<open>
  The objects reached from the constructor by \<^verbatim>\<open>clear\<close> and by registrations, whether
  they raise or not.
\<close>

inductive never_updated :: "model \<Rightarrow> bool" where
  constructed: "never_updated (init c g)"
| cleared: "never_updated st \<Longrightarrow> never_updated (clear st)"
| checked: "never_updated st \<Longrightarrow> never_updated (snd (check st d))"

subsection \<open>Reachable objects\<close>

text \<open>
  The objects that a run reaches: the constructed object, and what \<^verbatim>\<open>clear\<close>,
  registrations and updates make of it while they return normally (an exception ends
  the run).
\<close>

inductive reachable :: "svd \<Rightarrow> model \<Rightarrow> bool" for f :: svd where
  reach_init: "reachable f (init c g)"
| reach_clear: "reachable f st \<Longrightarrow> reachable f (clear st)"
| reach_check: "reachable f st \<Longrightarrow> check st d = (None, st') \<Longrightarrow> reachable f st'"
| reach_update: "reachable f st \<Longrightarrow> update f st d = (None, st') \<Longrightarrow> reachable f st'"

subsection \<open>Invariants of registration\<close>

text \<open>
  \<open>R\<close> has \<open>k\<close> rows of \<open>p\<close> entries; the counters count the registry entries;
  \<open>p\<close> is the initial width plus one for each user and each item.
\<close>

definition R_shape :: "model \<Rightarrow> bool" where
  "R_shape st = (length (m_R st) = m_k st \<and> list_all (\<lambda>r. length r = m_p st) (m_R st))"

definition counted :: "model \<Rightarrow> bool" where
  "counted st = (finite (dom (users st)) \<and> n_user st = card (dom (users st))
                 \<and> finite (dom (items st)) \<and> n_item st = card (dom (items st)))"

definition reg_inv :: "nat \<Rightarrow> model \<Rightarrow> bool" where
  "reg_inv p0 st = (R_shape st \<and> counted st \<and> m_p st = p0 + n_user st + n_item st)"

subsection \<open>The layout of the feature vector\<close>

text \<open>The one-hot vector of length \<open>n\<close> with its 1 at position \<open>j\<close>.\<close>

definition onehot :: "nat \<Rightarrow> nat \<Rightarrow> vec" where
  "onehot n j = (replicate n 0)[j := 1]"

text \<open>
  The order of the blocks as the spec words it, and the column that the spec has the
  item store hold for an item: the context vector followed by the one-hot identity.
\<close>

definition spec_layout :: "vec \<Rightarrow> vec \<Rightarrow> vec \<Rightarrow> vec \<Rightarrow> vec \<Rightarrow> vec" where
  "spec_layout user_id user_ctx other_ctx item_ctx item_id =
     user_id @ user_ctx @ other_ctx @ item_ctx @ item_id"

definition spec_item_column :: "vec \<Rightarrow> nat \<Rightarrow> nat \<Rightarrow> vec" where
  "spec_item_column ctx n slot = ctx @ onehot n slot"

subsection \<open>Invariants of the item store\<close>

text \<open>
  All rows of the stored matrix have the same length, and it has a row for each item
  identity.
\<close>

definition rect :: "mat \<Rightarrow> bool" where
  "rect M = list_all (\<lambda>r. length r = ncols M) M"

definition imat_inv :: "model \<Rightarrow> bool" where
  "imat_inv st = (rect (imat_rows (i_mat st)) \<and> n_item st \<le> length (imat_rows (i_mat st)))"

subsection \<open>The history of the item store\<close>

text \<open>
  \<open>stores f st cs\<close>: the object \<open>st\<close> is reached by a run of the methods that return
  normally, and \<open>cs\<close> lists, in the order of registration, the item contexts \<^verbatim>\<open>d['item']\<close>
  of the registrations that added a column to \<open>i_mat\<close>. A registration that finds
  \<^verbatim>\<open>i_mat.size == 0\<close> replaces the matrix by its own column, so the list starts again
  there.
\<close>

inductive stores :: "svd \<Rightarrow> model \<Rightarrow> vec list \<Rightarrow> bool" for f :: svd where
  stores_init: "stores f (init c g) []"
| stores_clear: "stores f st cs \<Longrightarrow> stores f (clear st) []"
| stores_update: "stores f st cs \<Longrightarrow> update f st d = (None, st') \<Longrightarrow> stores f st' cs"
| stores_known:
    "stores f st cs \<Longrightarrow> check st d = (None, st') \<Longrightarrow> d_i_index d = Some i \<Longrightarrow>
     i \<in> dom (items st) \<Longrightarrow> stores f st' cs"
| stores_new:
    "stores f st cs \<Longrightarrow> check st d = (None, st') \<Longrightarrow> d_i_index d = Some i \<Longrightarrow>
     i \<notin> dom (items st) \<Longrightarrow> d_item d = Some it \<Longrightarrow>
     stores f st' (if imat_size (i_mat st) = 0 then [it] else cs @ [it])"

text \<open>
  The columns of \<open>i_mat\<close> are, in order, an identity block of \<open>n_item\<close> entries followed
  by the listed contexts.
\<close>

definition stored_columns :: "model \<Rightarrow> vec list \<Rightarrow> bool" where
  "stored_columns st cs =
     (ncols (imat_rows (i_mat st)) = length cs
      \<and> (\<forall>j<length cs. column (imat_rows (i_mat st)) j = replicate (n_item st) 0 @ cs ! j))"

subsection \<open>The contract of the decomposition and the shape of the sketch\<close>

text \<open>
  What numpy documents of \<^verbatim>\<open>svd(A, full_matrices=False)\<close> for an \<open>M\<close> by \<open>N\<close> array:
  \<open>U\<close> has \<open>M\<close> rows and there are \<open>min M N\<close> singular values.
\<close>

definition reduced_svd_shape :: "svd \<Rightarrow> bool" where
  "reduced_svd_shape f =
     (\<forall>A Uf sf Vf. f A = Inr (Uf, sf, Vf) \<longrightarrow>
        length Uf = length A \<and> length sf = min (length A) (ncols A))"

text \<open>\<open>B\<close> has \<open>k\<close> rows of \<open>ell\<close> entries, and \<open>1 \<le> ell \<le> k\<close>.\<close>

definition sketch_inv :: "model \<Rightarrow> bool" where
  "sketch_inv st = (0 < ell st \<and> ell st \<le> m_k st \<and> length (m_B st) = m_k st
                    \<and> list_all (\<lambda>r. length r = ell st) (m_B st))"

definition all_zero :: "vec \<Rightarrow> bool" where
  "all_zero v = list_all (\<lambda>x. x = 0) v"

definition nonzero_cols :: "mat \<Rightarrow> nat list" where
  "nonzero_cols M = filter (\<lambda>j. \<not> all_zero (column M j)) [0..<ncols M]"

subsection \<open>The squared Frobenius norm and the singular value decomposition\<close>

definition frob2 :: "mat \<Rightarrow> real" where
  "frob2 M = sum_list (map (\<lambda>r. sum_list (map (\<lambda>x. x * x) r)) M)"

text \<open>The vectors of a list are pairwise orthogonal and of norm 1.\<close>

definition orthonormal :: "vec list \<Rightarrow> bool" where
  "orthonormal vs =
     list_all (\<lambda>i. list_all (\<lambda>j. dot (vs ! i) (vs ! j) = (if i = j then 1 else 0))
                       [0..<length vs]) [0..<length vs]"

text \<open>
  What \<^verbatim>\<open>svd(A, full_matrices=False)\<close> returns, in exact arithmetic: \<open>A = U diag(s) Vh\<close>,
  the columns of \<open>U\<close> and the rows of \<open>Vh\<close> are orthonormal, and the singular values
  are non-negative and in descending order.
\<close>

definition is_svd :: "mat \<Rightarrow> mat \<Rightarrow> vec \<Rightarrow> mat \<Rightarrow> bool" where
  "is_svd A Um s Vh =
     (length Um = length A \<and> length s = min (length A) (ncols A)
      \<and> list_all (\<lambda>r. length r = length s) Um
      \<and> length Vh = length s \<and> list_all (\<lambda>r. length r = ncols A) Vh
      \<and> sorted (rev s) \<and> list_all (\<lambda>x. 0 \<le> x) s
      \<and> orthonormal (mat_T Um) \<and> orthonormal Vh
      \<and> (case mat_mul Um (diag s) of Inl e \<Rightarrow> False | Inr W \<Rightarrow> mat_mul W Vh = Inr A))"

definition svd_contract :: "svd \<Rightarrow> bool" where
  "svd_contract f = (\<forall>A Um s Vh. f A = Inr (Um, s, Vh) \<longrightarrow> is_svd A Um s Vh)"

subsection \<open>Sample objects\<close>

text \<open>
  Modelled from the spec: the ranking \<^verbatim>\<open>_Base__scores2recos\<close> belongs to the base
  class, which is not among the sources. The spec has it rank the candidates by score,
  ties in their original order, and return the first \<open>at\<close> items with their scores.
\<close>

definition scores2recos :: "vec \<Rightarrow> int list \<Rightarrow> nat \<Rightarrow> (int \<times> real) list" where
  "scores2recos sc ts n = take n (sort_key (\<lambda>(t, s). - s) (zip ts sc))"

text \<open>A stream of samples, context sizes and samples to run the model on.\<close>

definition g0 :: "nat \<Rightarrow> real" where
  "g0 n = real (n mod 7) / 10 - 1 / 4"

definition c0 :: contexts where
  "c0 = \<lparr>c_user = 1, c_others = 0, c_item = 2\<rparr>"

definition ev :: "int \<Rightarrow> int \<Rightarrow> event" where
  "ev u i = \<lparr>d_u_index = Some u, d_i_index = Some i, d_user = Some [1 / 2],
            d_others = Some [], d_item = Some [5, 7]\<rparr>"

definition st1 :: model where
  "st1 = snd (check (init c0 g0) (ev 0 0))"

definition st2 :: model where
  "st2 = snd (check st1 (ev 1 1))"

definition st3 :: model where
  "st3 = snd (check_all (init c0 g0) [ev 0 0, ev 1 1, ev 0 2])"

definition ev_no_item :: event where
  "ev_no_item = \<lparr>d_u_index = Some 0, d_i_index = None, d_user = Some [1 / 2],
                 d_others = Some [], d_item = Some [5, 7]\<rparr>"

definition ev_no_user :: event where
  "ev_no_user = \<lparr>d_u_index = None, d_i_index = Some 0, d_user = Some [1 / 2],
                 d_others = Some [], d_item = Some [5, 7]\<rparr>"

text \<open>
  An object with no context blocks, one user and one item, whose two columns of \<open>R\<close> are
  \<open>3 e\<^sub>0\<close> and \<open>4 e\<^sub>1\<close>: the projection of its sample is \<open>(3, 4, 0, \<dots>)\<close>. \<open>B34\<close> is
  the sketch with the normalized observation in its first column, \<open>U34\<close> and
  \<open>(1, 0, 0, 0, 0, 0)\<close> with the identity are a singular value decomposition of it.
\<close>

definition cz :: contexts where "cz = \<lparr>c_user = 0, c_others = 0, c_item = 0\<rparr>"

definition g34 :: "nat \<Rightarrow> real" where "g34 n = (if n = 0 then 3 else if n = 41 then 4 else 0)"

definition evz :: event where
  "evz = \<lparr>d_u_index = Some 0, d_i_index = Some 0, d_user = Some [], d_others = Some [], d_item = Some []\<rparr>"

definition stz :: model where "stz = snd (check (init cz g34) evz)"

definition B34 :: mat where
  "B34 = [[3 / 5, 0, 0, 0, 0, 0], [4 / 5, 0, 0, 0, 0, 0]] @ replicate 38 (replicate 6 0)"

definition U34 :: mat where
  "U34 = [[3 / 5, - 4 / 5, 0, 0, 0, 0], [4 / 5, 3 / 5, 0, 0, 0, 0], [0, 0, 1, 0, 0, 0],
          [0, 0, 0, 1, 0, 0], [0, 0, 0, 0, 1, 0], [0, 0, 0, 0, 0, 1]]
         @ replicate 34 (replicate 6 0)"

definition svd34 :: svd where
  "svd34 A = (if A = B34 then Inr (U34, [1, 0, 0, 0, 0, 0], identity 6) else Inl LinAlgError)"

text \<open>
  The same object with a sketch \<open>BF\<close> of five non-zero columns. With the observation in
  its last column it is \<open>B1F\<close>, of full rank, whose singular values are
  \<open>(2, 2, 2, 2, 2, 1)\<close>; \<open>BF'\<close> is the sketch after the shrink step.
\<close>

definition BF :: mat where
  "BF = [[0, 0, 0, 0, 0, 0], [0, 0, 0, 0, 0, 0], [2, 0, 0, 0, 0, 0], [0, 2, 0, 0, 0, 0],
         [0, 0, 2, 0, 0, 0], [0, 0, 0, 2, 0, 0], [0, 0, 0, 0, 2, 0]]
        @ replicate 33 (replicate 6 0)"

definition B1F :: mat where
  "B1F = [[0, 0, 0, 0, 0, 3 / 5], [0, 0, 0, 0, 0, 4 / 5], [2, 0, 0, 0, 0, 0],
          [0, 2, 0, 0, 0, 0], [0, 0, 2, 0, 0, 0], [0, 0, 0, 2, 0, 0], [0, 0, 0, 0, 2, 0]]
         @ replicate 33 (replicate 6 0)"

definition UF :: mat where
  "UF = [[0, 0, 0, 0, 0, 3 / 5], [0, 0, 0, 0, 0, 4 / 5], [1, 0, 0, 0, 0, 0],
         [0, 1, 0, 0, 0, 0], [0, 0, 1, 0, 0, 0], [0, 0, 0, 1, 0, 0], [0, 0, 0, 0, 1, 0]]
        @ replicate 33 (replicate 6 0)"

definition sF :: vec where
  "sF = [2, 2, 2, 2, 2, 1]"

definition svdF :: svd where
  "svdF A = (if A = B1F then Inr (UF, sF, identity 6) else Inl LinAlgError)"

definition BF' :: mat where
  "BF' = [[0, 0, 0, 0, 0, 0], [0, 0, 0, 0, 0, 0], [sqrt 3, 0, 0, 0, 0, 0],
          [0, sqrt 3, 0, 0, 0, 0], [0, 0, sqrt 3, 0, 0, 0], [0, 0, 0, sqrt 3, 0, 0],
          [0, 0, 0, 0, sqrt 3, 0]]
         @ replicate 33 (replicate 6 0)"

definition stF :: model where
  "stF = stz\<lparr>m_B := BF\<rparr>"

section \<open>Properties\<close>

lemma int_sqrt_40: "int_sqrt 40 = 6"
  by code_simp

lemmas run_defs = check_def check_user_def check_item_def new_user_def new_item_def
  init_def clear_def normal_def grow_R_def grow_i_mat_def insert_col_def hstack_col_def Let_def int_sqrt_40 ncols_def

lemmas ex_defs = c0_def ev_def g0_def ev_no_item_def ev_no_user_def

text \<open>The sample objects are reached by registrations that return normally.\<close>

lemma st1_run: "check (init c0 g0) (ev 0 0) = (None, st1)"
proof -
  have "fst (check (init c0 g0) (ev 0 0)) = None"
    by (simp add: run_defs ex_defs split: prod.splits)
  then show ?thesis by (simp add: st1_def prod_eq_iff)
qed

lemma st1_reachable: "reachable f st1"
  using reach_init st1_run by (rule reach_check)

lemma st2_run: "check st1 (ev 1 1) = (None, st2)"
proof -
  have "fst (check st1 (ev 1 1)) = None"
    by (simp add: st1_def run_defs ex_defs split: prod.splits)
  then show ?thesis by (simp add: st2_def prod_eq_iff)
qed

subsection \<open>The integer square root\<close>

lemma sqrt_below_le: "sqrt_below k n * sqrt_below k n \<le> k"
  by (induction n) auto

lemma sqrt_below_max: "m \<le> n \<Longrightarrow> m * m \<le> k \<Longrightarrow> m \<le> sqrt_below k n"
  by (induction n) (auto simp: le_Suc_eq)

lemma int_sqrt_floor: "int_sqrt k = nat \<lfloor>sqrt (real k)\<rfloor>"
proof -
  define m where "m = sqrt_below k k"
  have lo: "m * m \<le> k" unfolding m_def by (rule sqrt_below_le)
  have hi: "k < Suc m * Suc m"
  proof (rule ccontr)
    assume "\<not> k < Suc m * Suc m"
    then have sq: "Suc m * Suc m \<le> k" by simp
    have "Suc m \<le> Suc m * Suc m" by simp
    with sq have "Suc m \<le> k" by linarith
    from sqrt_below_max [OF this sq] show False by (simp add: m_def)
  qed
  have "real m \<le> sqrt (real k)"
  proof (rule real_le_rsqrt)
    have "real (m * m) \<le> real k" using lo by (simp only: of_nat_le_iff)
    then show "(real m)\<^sup>2 \<le> real k" by (simp add: power2_eq_square)
  qed
  moreover have "sqrt (real k) < real m + 1"
  proof (rule real_less_lsqrt)
    have "real k < real (Suc m * Suc m)" using hi by (simp only: of_nat_less_iff)
    then show "real k < (real m + 1)\<^sup>2" by (simp add: power2_eq_square algebra_simps)
  qed simp
  ultimately have "\<lfloor>sqrt (real k)\<rfloor> = int m"
    by (intro floor_unique) auto
  then show ?thesis by (simp add: int_sqrt_def m_def)
qed

lemma init_sizes: "m_k (init c g) = 40" "ell (init c g) = 6"
  by (simp_all add: init_def clear_def normal_def int_sqrt_40)

subsection \<open>Registration\<close>

text \<open>
  C8. Registration is idempotent: when the user key and the item key of the sample are
  both registered already, \<^verbatim>\<open>_Base__check\<close> returns normally and leaves the whole object
  as it was, for every object and every such sample.
\<close>

theorem check_idempotent:
  "d_u_index d = Some u \<Longrightarrow> u \<in> dom (users st) \<Longrightarrow>
   d_i_index d = Some i \<Longrightarrow> i \<in> dom (items st) \<Longrightarrow> check st d = (None, st)"
  by (simp add: check_def check_user_def check_item_def)

theorem check_idempotent_witness:
  "d_u_index (ev 0 0) = Some 0 \<and> 0 \<in> dom (users (snd (check (init c0 g0) (ev 0 0))))
   \<and> d_i_index (ev 0 0) = Some 0 \<and> 0 \<in> dom (items (snd (check (init c0 g0) (ev 0 0))))
   \<and> check (snd (check (init c0 g0) (ev 0 0))) (ev 0 0)
       = (None, snd (check (init c0 g0) (ev 0 0)))"
proof -
  have a: "d_u_index (ev 0 0) = Some 0" "d_i_index (ev 0 0) = Some 0"
    by (simp_all add: ev_def)
  have b: "0 \<in> dom (users (snd (check (init c0 g0) (ev 0 0))))"
    by (simp add: run_defs ex_defs split: prod.splits)
  have c: "0 \<in> dom (items (snd (check (init c0 g0) (ev 0 0))))"
    by (simp add: run_defs ex_defs split: prod.splits)
  from check_idempotent [OF a(1) b a(2) c] a b c show ?thesis by blast
qed

text \<open>
  A sample with a new user key and no item key is rejected with \<^verbatim>\<open>KeyError\<close> on line 52,
  after lines 43 to 50 have registered the user: the registry, \<open>n_user\<close> and \<open>p\<close> have
  changed when the exception leaves the method.
\<close>

theorem check_partial_registration_counterexample:
  "fst (check (init c0 g0) ev_no_item) = Some KeyError
   \<and> n_user (snd (check (init c0 g0) ev_no_item)) = 1 \<and> n_user (init c0 g0) = 0
   \<and> m_p (snd (check (init c0 g0) ev_no_item)) = 4 \<and> m_p (init c0 g0) = 3
   \<and> users (snd (check (init c0 g0) ev_no_item)) 0 = Some {}
   \<and> users (init c0 g0) 0 = None"
  by (simp add: run_defs ex_defs split: prod.splits)

text \<open>
  C4, amended. A sample without a user key is rejected before any state mutation, and so
  is a sample without an item key when its user is registered already: the object is
  left as it was. (Nothing else is validated: a missing item key or item context is
  found only after the earlier lines have taken effect, and the context vectors of the
  user and of the others are not read by registration.)
\<close>

theorem check_missing_key_rejected:
  "d_u_index d = None
     \<or> (\<exists>u. d_u_index d = Some u \<and> u \<in> dom (users st) \<and> d_i_index d = None)
   \<Longrightarrow> check st d = (Some KeyError, st)"
  by (auto simp add: check_def check_user_def check_item_def)

theorem check_missing_key_rejected_witness:
  "d_u_index ev_no_user = None
   \<and> check (init c0 g0) ev_no_user = (Some KeyError, init c0 g0)"
proof -
  have a: "d_u_index ev_no_user = None" by (simp add: ev_no_user_def)
  then have "d_u_index ev_no_user = None
     \<or> (\<exists>u. d_u_index ev_no_user = Some u \<and> u \<in> dom (users (init c0 g0))
            \<and> d_i_index ev_no_user = None)" by simp
  from check_missing_key_rejected [OF this] a show ?thesis by simp
qed

subsection \<open>The width of the projection matrix\<close>

lemma insert_col_shape:
  "insert_col off col M = Inr M' \<Longrightarrow> list_all (\<lambda>r. length r = n) M
   \<Longrightarrow> length M' = length M \<and> list_all (\<lambda>r. length r = Suc n) M'"
  by (auto simp add: insert_col_def list_all_iff split: if_splits dest!: set_zip_leftD)

lemma grow_R_shape:
  assumes "length (m_R st) = m_k st" "list_all (\<lambda>r. length r = n) (m_R st)"
  shows "\<exists>st'. grow_R off st = (None, st') \<and> length (m_R st') = m_k st
       \<and> list_all (\<lambda>r. length r = Suc n) (m_R st')
       \<and> m_k st' = m_k st \<and> m_p st' = m_p st \<and> n_user st' = n_user st \<and> n_item st' = n_item st
       \<and> users st' = users st \<and> items st' = items st \<and> contexts st' = contexts st
       \<and> i_mat st' = i_mat st"
proof -
  have "length (m_R st) = length (map hd (fst (normal (m_k st) 1 st)))"
    using assms(1) by (simp add: normal_def)
  then obtain M' where M': "insert_col off (map hd (fst (normal (m_k st) 1 st))) (m_R st) = Inr M'"
    by (simp add: insert_col_def)
  from insert_col_shape [OF M' assms(2)] M' assms(1) show ?thesis
    by (simp add: grow_R_def normal_def)
qed

lemma reg_invD:
  assumes "reg_inv p0 st"
  shows "length (m_R st) = m_k st" "list_all (\<lambda>r. length r = m_p st) (m_R st)"
    "finite (dom (users st))" "n_user st = card (dom (users st))"
    "finite (dom (items st))" "n_item st = card (dom (items st))"
    "m_p st = p0 + n_user st + n_item st"
  using assms unfolding reg_inv_def R_shape_def counted_def by blast+

lemma reg_invI:
  assumes "length (m_R st) = m_k st" "list_all (\<lambda>r. length r = m_p st) (m_R st)"
    "finite (dom (users st))" "n_user st = card (dom (users st))"
    "finite (dom (items st))" "n_item st = card (dom (items st))"
    "m_p st = p0 + n_user st + n_item st"
  shows "reg_inv p0 st"
  using assms unfolding reg_inv_def R_shape_def counted_def by blast

lemma grow_i_mat_frame:
  "grow_i_mat it st = (r, st') \<Longrightarrow>
     m_R st' = m_R st \<and> m_k st' = m_k st \<and> m_p st' = m_p st \<and> n_user st' = n_user st
     \<and> n_item st' = n_item st \<and> users st' = users st \<and> items st' = items st
     \<and> contexts st' = contexts st"
  by (auto simp add: grow_i_mat_def Let_def split: sum.splits if_splits)

lemma check_user_inv:
  assumes inv: "reg_inv p0 st" and run: "check_user st d = (None, st')"
  shows "reg_inv p0 st'"
proof (cases "d_u_index d")
  case None
  with run show ?thesis by (simp add: check_user_def)
next
  case (Some u)
  show ?thesis
  proof (cases "u \<in> dom (users st)")
    case True
    with Some run inv show ?thesis by (simp add: check_user_def)
  next
    case False
    define st1 where "st1 = new_user u st"
    have g: "grow_R (n_user st1 - 1) st1 = (None, st')"
      using run Some False by (simp add: check_user_def Let_def st1_def)
    note i = reg_invD [OF inv]
    have "length (m_R st1) = m_k st1" "list_all (\<lambda>r. length r = m_p st) (m_R st1)"
      using i(1,2) by (simp_all add: st1_def new_user_def new_item_def)
    from grow_R_shape [OF this, of "n_user st1 - 1"] obtain st'' where
      g': "grow_R (n_user st1 - 1) st1 = (None, st'')" and
      s: "length (m_R st'') = m_k st1" "list_all (\<lambda>r. length r = Suc (m_p st)) (m_R st'')"
      "m_k st'' = m_k st1" "m_p st'' = m_p st1" "n_user st'' = n_user st1"
      "n_item st'' = n_item st1" "users st'' = users st1" "items st'' = items st1"
      by blast
    from g g' have eq: "st'' = st'" by simp
    have c: "card (dom ((users st)(u \<mapsto> {}))) = Suc (card (dom (users st)))"
      using False i(3) by simp
    show ?thesis
    proof (rule reg_invI)
      show "length (m_R st') = m_k st'" using s(1,3) eq by simp
      show "list_all (\<lambda>r. length r = m_p st') (m_R st')"
        using s(2,4) eq by (simp add: st1_def new_user_def new_item_def)
      show "finite (dom (users st'))" using s(7) eq i(3) by (simp add: st1_def new_user_def new_item_def)
      show "n_user st' = card (dom (users st'))"
        using s(5,7) eq i(4) c by (simp add: st1_def new_user_def new_item_def)
      show "finite (dom (items st'))" using s(8) eq i(5) by (simp add: st1_def new_user_def new_item_def)
      show "n_item st' = card (dom (items st'))" using s(6,8) eq i(6) by (simp add: st1_def new_user_def new_item_def)
      show "m_p st' = p0 + n_user st' + n_item st'"
        using s(4,5,6) eq i(7) by (simp add: st1_def new_user_def new_item_def)
    qed
  qed
qed

lemma check_item_inv:
  assumes inv: "reg_inv p0 st" and run: "check_item st d = (None, st')"
  shows "reg_inv p0 st'"
proof (cases "d_i_index d")
  case None
  with run show ?thesis by (simp add: check_item_def)
next
  case (Some i)
  show ?thesis
  proof (cases "i \<in> dom (items st)")
    case True
    with Some run inv show ?thesis by (simp add: check_item_def)
  next
    case False
    define st1 where "st1 = new_item i st"
    from run Some False obtain it where it: "d_item d = Some it"
      by (cases "d_item d") (simp_all add: check_item_def Let_def)
    obtain r st2 where g2: "grow_i_mat it st1 = (r, st2)" by (cases "grow_i_mat it st1")
    have run': "(case grow_i_mat it st1 of (Some e, st2) \<Rightarrow> (Some e, st2)
                 | (None, st2) \<Rightarrow> grow_R (n_user st2 + c_user (contexts st2)
                     + c_others (contexts st2) + n_item st2 - 1) st2) = (None, st')"
      using run Some False it by (simp add: check_item_def Let_def st1_def)
    have g: "grow_R (n_user st2 + c_user (contexts st2)
               + c_others (contexts st2) + n_item st2 - 1) st2 = (None, st')"
      using run' g2 by (cases r) simp_all
    note f = grow_i_mat_frame [OF g2]
    note i = reg_invD [OF inv]
    define off where "off = n_user st2 + c_user (contexts st2) + c_others (contexts st2)
                             + n_item st2 - 1"
    have "length (m_R st2) = m_k st2" "list_all (\<lambda>r. length r = m_p st) (m_R st2)"
      using i(1,2) f by (simp_all add: st1_def new_user_def new_item_def)
    from grow_R_shape [OF this, of off] obtain st'' where
      g': "grow_R off st2 = (None, st'')" and
      s: "length (m_R st'') = m_k st2" "list_all (\<lambda>r. length r = Suc (m_p st)) (m_R st'')"
      "m_k st'' = m_k st2" "m_p st'' = m_p st2" "n_user st'' = n_user st2"
      "n_item st'' = n_item st2" "users st'' = users st2" "items st'' = items st2"
      by blast
    from g g' have eq: "st'' = st'" by (simp add: off_def)
    have c: "card (dom ((items st)(i \<mapsto> ()))) = Suc (card (dom (items st)))"
      using False i(5) by simp
    show ?thesis
    proof (rule reg_invI)
      show "length (m_R st') = m_k st'" using s(1,3) eq by simp
      show "list_all (\<lambda>r. length r = m_p st') (m_R st')"
        using s(2,4) eq f by (simp add: st1_def new_user_def new_item_def)
      show "finite (dom (users st'))" using s(7) eq i(3) f by (simp add: st1_def new_user_def new_item_def)
      show "n_user st' = card (dom (users st'))"
        using s(5,7) eq i(4) f by (simp add: st1_def new_user_def new_item_def)
      show "finite (dom (items st'))" using s(8) eq i(5) f by (simp add: st1_def new_user_def new_item_def)
      show "n_item st' = card (dom (items st'))"
        using s(6,8) eq i(6) c f by (simp add: st1_def new_user_def new_item_def)
      show "m_p st' = p0 + n_user st' + n_item st'"
        using s(4,5,6) eq i(7) f by (simp add: st1_def new_user_def new_item_def)
    qed
  qed
qed

lemma check_inv: "reg_inv p0 st \<Longrightarrow> check st d = (None, st') \<Longrightarrow> reg_inv p0 st'"
  by (auto simp add: check_def split: prod.splits option.splits
           dest: check_user_inv check_item_inv)

lemma check_all_inv: "reg_inv p0 st \<Longrightarrow> check_all st ds = (None, st') \<Longrightarrow> reg_inv p0 st'"
proof (induction ds arbitrary: st)
  case Nil
  then show ?case by simp
next
  case (Cons d ds)
  obtain r st1 where c: "check st d = (r, st1)" by (cases "check st d")
  with Cons.prems(2) have r: "r = None" and rest: "check_all st1 ds = (None, st')"
    by (cases r; simp)+
  from check_inv [OF Cons.prems(1) c [unfolded r]] rest show ?case by (rule Cons.IH)
qed

lemma init_inv: "reg_inv (c_user c + c_others c + c_item c) (init c g)"
  by (rule reg_invI) (simp_all add: init_def clear_def normal_def list_all_iff)

text \<open>
  C7. After any sequence of registrations that all return normally, starting from the
  constructed object, \<open>R\<close> has \<open>k\<close> rows and exactly \<open>p0 + u + i\<close> columns, where
  \<open>p0\<close> is the initial width and \<open>u\<close> and \<open>i\<close> are the numbers of registered users
  and items; \<open>p\<close> is that number too, so it has grown by one for each new slot.
\<close>

theorem R_columns_after_registration:
  assumes "check_all (init c g) ds = (None, st)"
  shows "length (m_R st) = m_k st
         \<and> list_all (\<lambda>r. length r = c_user c + c_others c + c_item c
                                      + card (dom (users st)) + card (dom (items st))) (m_R st)
         \<and> m_p st = c_user c + c_others c + c_item c
                     + card (dom (users st)) + card (dom (items st))
         \<and> n_user st = card (dom (users st)) \<and> n_item st = card (dom (items st))"
proof -
  note i = reg_invD [OF check_all_inv [OF init_inv assms]]
  from i(2) i(7) i(4) i(6) have "list_all (\<lambda>r. length r = c_user c + c_others c + c_item c
           + card (dom (users st)) + card (dom (items st))) (m_R st)" by simp
  with i show ?thesis by simp
qed

theorem R_columns_after_registration_witness:
  "check_all (init c0 g0) [ev 0 0, ev 1 1, ev 0 2] = (None, st3)
   \<and> length (m_R st3) = 40 \<and> list_all (\<lambda>r. length r = 8) (m_R st3) \<and> m_p st3 = 8"
proof -
  have "fst (check_all (init c0 g0) [ev 0 0, ev 1 1, ev 0 2]) = None"
    by (simp add: run_defs ex_defs split: prod.splits)
  then have a: "check_all (init c0 g0) [ev 0 0, ev 1 1, ev 0 2] = (None, st3)"
    by (simp add: prod_eq_iff st3_def)
  have u: "dom (users st3) = {0, 1}"
    by (auto simp add: st3_def run_defs ex_defs split: prod.splits if_splits)
  have i: "dom (items st3) = {0, 1, 2}"
    by (auto simp add: st3_def run_defs ex_defs split: prod.splits if_splits)
  have k: "m_k st3 = 40"
    by (simp add: st3_def run_defs ex_defs split: prod.splits)
  have e: "c_user c0 + c_others c0 + c_item c0
             + card (dom (users st3)) + card (dom (items st3)) = 8"
    by (simp add: u i c0_def)
  from R_columns_after_registration [OF a] a show ?thesis
    unfolding e k by blast
qed

subsection \<open>Scoring before the first update\<close>

lemma grow_R_U: "grow_R off st = (r, st') \<Longrightarrow> m_U st' = m_U st"
  by (auto simp add: grow_R_def normal_def split: sum.splits)

lemma grow_i_mat_U: "grow_i_mat it st = (r, st') \<Longrightarrow> m_U st' = m_U st"
  by (auto simp add: grow_i_mat_def Let_def split: sum.splits if_splits)

lemma check_user_U: "check_user st d = (r, st') \<Longrightarrow> m_U st' = m_U st"
  by (auto simp add: check_user_def new_user_def Let_def split: option.splits if_splits dest!: grow_R_U)

lemma check_item_U: "check_item st d = (r, st') \<Longrightarrow> m_U st' = m_U st"
  by (auto simp add: check_item_def new_item_def Let_def split: option.splits if_splits prod.splits
           dest!: grow_R_U grow_i_mat_U)

lemma check_U: "check st d = (r, st') \<Longrightarrow> m_U st' = m_U st"
  by (auto simp add: check_def split: option.splits prod.splits
           dest!: check_user_U check_item_U)

lemma clear_U: "m_U (clear st) = m_U st"
  by (simp add: clear_def normal_def Let_def)

lemma never_updated_U: "never_updated st \<Longrightarrow> m_U st = None"
proof (induction rule: never_updated.induct)
  case (constructed c g)
  show ?case by (simp add: init_def clear_U)
next
  case (cleared st)
  then show ?case by (simp add: clear_U)
next
  case (checked st d)
  then show ?case using check_U [of st d] by (cases "check st d") simp
qed

lemma scores_no_basis: "m_U st = None \<Longrightarrow> \<exists>e. scores st d ts = Inl e"
  by (simp add: scores_def split: sum.splits)

text \<open>
  C10. On an object that was constructed, and possibly cleared and fed registrations,
  but never updated, every call of \<^verbatim>\<open>_Base__recommend\<close> fails: the attribute \<open>U\<close> is
  assigned only by the update, so line 123 raises unless an earlier line has done so.
\<close>

theorem recommend_before_update_fails:
  "never_updated st \<Longrightarrow> \<exists>e. recommend f st d ts n = Inl e"
  using scores_no_basis [OF never_updated_U, of st d ts]
  by (auto simp add: recommend_def)

theorem recommend_before_update_fails_witness:
  "never_updated (snd (check (init c0 g0) (ev 0 0)))
   \<and> (\<exists>e. recommend scores2recos (snd (check (init c0 g0) (ev 0 0))) (ev 0 0) [0] 10
            = Inl e)"
proof -
  have a: "never_updated (snd (check (init c0 g0) (ev 0 0)))"
    by (intro never_updated.intros)
  from recommend_before_update_fails [OF a] a show ?thesis by blast
qed

text \<open>
  In the sample with one registered user and item every line up to 121 passes, and the
  exception is the \<^verbatim>\<open>AttributeError\<close> of line 123.
\<close>

lemma mat_mul_ncols:
  assumes "list_all (\<lambda>r. length r = length N) M" "M \<noteq> []"
  shows "\<exists>Y. mat_mul M N = Inr Y \<and> ncols Y = ncols N"
proof -
  from assms(2) obtain r rs where "M = r # rs" by (cases M) auto
  then show ?thesis using assms(1) by (simp add: mat_mul_def ncols_def mat_T_def)
qed

lemma recommend_before_update_sample:
  "recommend scores2recos st1 (ev 0 0) [0] 10 = Inl AttributeError"
proof -
  have i: "i_mat st1 = Nd [[0], [5], [7]]" "n_user st1 = 1" "m_U st1 = None"
    by (simp_all add: st1_def run_defs ex_defs split: prod.splits)
  have c: "candidates st1 (ev 0 0) [0] = Inr [[1], [1 / 2], [0], [5], [7]]"
    by (simp add: candidates_def select_columns_def py_index_def set_one_def i ncols_def ev_def)
  have p: "m_p st1 = 5" "m_k st1 = 40"
    by (simp_all add: st1_def run_defs ex_defs split: prod.splits)
  note inv = reg_invD [OF check_inv [OF init_inv st1_run]]
  have "length [[1], [1 / 2], [0], [5], [7::real]] = m_p st1" by (simp add: p)
  then have "list_all (\<lambda>r. length r = length [[1], [1 / 2], [0], [5], [7::real]]) (m_R st1)"
    using inv(2) by (simp only:)
  moreover have "m_R st1 \<noteq> []" using inv(1) p by auto
  ultimately obtain Y1 where Y1: "mat_mul (m_R st1) [[1], [1 / 2], [0], [5], [7]] = Inr Y1"
    and n: "ncols Y1 = ncols [[1], [1 / 2], [0], [5], [7::real]]"
    using mat_mul_ncols by blast
  from n have "ncols Y1 \<noteq> 0" by (simp add: ncols_def)
  then obtain Y where "normalize_columns Y1 = Inr Y" by (simp add: normalize_columns_def)
  then show ?thesis by (simp add: recommend_def scores_def c Y1 i)
qed

subsection \<open>Unknown targets\<close>

lemma py_index_error: "py_index n i = Inl e \<Longrightarrow> e = IndexError"
  by (auto simp add: py_index_def Let_def split: if_splits)

lemma py_index_out: "i < - int n \<or> int n \<le> i \<Longrightarrow> py_index n i = Inl IndexError"
  by (auto simp add: py_index_def Let_def)

lemma py_index_in: "py_index n i = Inr j \<Longrightarrow> - int n \<le> i \<and> i < int n \<and> j < n"
  by (auto simp add: py_index_def Let_def split: if_splits)

lemma py_indices_out:
  "t \<in> set ts \<Longrightarrow> t < - int n \<or> int n \<le> t \<Longrightarrow> py_indices n ts = Inl IndexError"
proof (induction ts)
  case Nil
  then show ?case by simp
next
  case (Cons a ts)
  show ?case
  proof (cases "py_index n a")
    case (Inl e)
    then show ?thesis using py_index_error [OF Inl] by simp
  next
    case (Inr j)
    with py_index_in [OF Inr] Cons.prems have "t \<in> set ts" by auto
    from Cons.IH [OF this Cons.prems(2)] Inr show ?thesis by simp
  qed
qed

text \<open>
  Three items are registered, slots 0 to 2. A request for the slot 7 raises
  \<^verbatim>\<open>IndexError\<close> on line 107: the slot is not left out, and no empty list is returned
  although none of the targets is known.
\<close>

theorem recommend_unknown_target_counterexample:
  "recommend scores2recos st3 (ev 0 0) [7] 10 = Inl IndexError"
  by (simp add: recommend_def scores_def candidates_def select_columns_def py_index_def
        st3_def run_defs ex_defs split: prod.splits)

text \<open>
  C1, amended. A target that is not a column index of \<open>i_mat\<close> (a slot that was never
  registered) is not excluded from scoring: it makes \<^verbatim>\<open>_Base__recommend\<close> raise
  \<^verbatim>\<open>IndexError\<close> on line 107, also when none of the targets is known.
\<close>

theorem recommend_unknown_target_raises:
  assumes "t \<in> set ts"
    and "t < - int (ncols (imat_rows (i_mat st))) \<or> int (ncols (imat_rows (i_mat st))) \<le> t"
  shows "recommend f st d ts n = Inl IndexError"
  using py_indices_out [OF assms]
  by (simp add: recommend_def scores_def candidates_def select_columns_def)

theorem recommend_unknown_target_raises_witness:
  "(5::int) \<in> set [0, 5] \<and> int (ncols (imat_rows (i_mat st3))) \<le> 5
   \<and> recommend scores2recos st3 (ev 0 0) [0, 5] 10 = Inl IndexError"
proof -
  have a: "(5::int) \<in> set [0, 5]" by simp
  have n: "ncols (imat_rows (i_mat st3)) = 3"
    by (simp add: st3_def run_defs ex_defs split: prod.splits)
  then have b: "5 < - int (ncols (imat_rows (i_mat st3))) \<or> int (ncols (imat_rows (i_mat st3))) \<le> 5"
    by simp
  from recommend_unknown_target_raises [OF a b] n show ?thesis by simp
qed

subsection \<open>The columns of the item store\<close>

lemma column_length [simp]: "length (column M j) = length M"
  by (simp add: column_def)

lemma column_append: "column (A @ B) j = column A j @ column B j"
  by (simp add: column_def)

lemma column_Cons: "column (r # M) j = r ! j # column M j"
  by (simp add: column_def)

lemma column_take: "column (take k M) j = take k (column M j)"
  by (simp add: column_def take_map)

lemma column_drop: "column (drop k M) j = drop k (column M j)"
  by (simp add: column_def drop_map)

lemma rectD: "rect M \<Longrightarrow> r \<in> set M \<Longrightarrow> length r = ncols M"
  by (simp add: rect_def list_all_iff)

lemma insert_row_rect:
  assumes "rect M"
  shows "list_all (\<lambda>r. length r = ncols M) (take k M @ [replicate (ncols M) 0] @ drop k M)"
  using assms by (auto simp add: rect_def list_all_iff dest: in_set_takeD in_set_dropD)

lemma hstack_columns:
  assumes len: "length v = length M1" and rows: "list_all (\<lambda>r. length r = m) M1"
  shows "list_all (\<lambda>r. length r = Suc m) (map2 (\<lambda>r x. r @ [x]) M1 v)"
    and "column (map2 (\<lambda>r x. r @ [x]) M1 v) m = v"
    and "j < m \<Longrightarrow> column (map2 (\<lambda>r x. r @ [x]) M1 v) j = column M1 j"
proof -
  show "list_all (\<lambda>r. length r = Suc m) (map2 (\<lambda>r x. r @ [x]) M1 v)"
    using rows by (auto simp add: list_all_iff dest!: set_zip_leftD)
  show "column (map2 (\<lambda>r x. r @ [x]) M1 v) m = v"
    using len rows
  proof (induction M1 arbitrary: v)
    case Nil then show ?case by (simp add: column_def)
  next
    case (Cons r M1)
    then obtain x v' where v: "v = x # v'" by (cases v) auto
    with Cons show ?case by (simp add: column_def nth_append)
  qed
  show "column (map2 (\<lambda>r x. r @ [x]) M1 v) j = column M1 j" if "j < m"
    using len rows that
  proof (induction M1 arbitrary: v)
    case Nil then show ?case by (simp add: column_def)
  next
    case (Cons r M1)
    then obtain x v' where v: "v = x # v'" by (cases v) auto
    with Cons show ?case by (simp add: column_def nth_append)
  qed
qed

lemma grow_R_frame:
  "grow_R off st = (r, st') \<Longrightarrow> i_mat st' = i_mat st \<and> n_item st' = n_item st
     \<and> n_user st' = n_user st \<and> items st' = items st \<and> users st' = users st"
  by (auto simp add: grow_R_def normal_def split: sum.splits)

lemma check_user_frame:
  "check_user st d = (r, st') \<Longrightarrow> i_mat st' = i_mat st \<and> n_item st' = n_item st
     \<and> items st' = items st"
  by (auto simp add: check_user_def new_user_def Let_def split: option.splits if_splits
           dest!: grow_R_frame)

lemma rect_singletons: "rect (map (\<lambda>x. [x]) v)"
  by (cases v) (simp_all add: rect_def ncols_def list_all_iff)

lemma grow_i_mat_rows:
  assumes "grow_i_mat it st = (None, st')"
  shows "n_item st' = n_item st"
    and "imat_size (i_mat st) = 0 \<Longrightarrow>
           imat_rows (i_mat st') = map (\<lambda>x. [x]) (replicate (n_item st) 0 @ it)"
    and "imat_size (i_mat st) \<noteq> 0 \<Longrightarrow>
           imat_rows (i_mat st')
             = map2 (\<lambda>r x. r @ [x])
                 (take (n_item st - 1) (imat_rows (i_mat st))
                    @ [replicate (ncols (imat_rows (i_mat st))) 0]
                    @ drop (n_item st - 1) (imat_rows (i_mat st)))
                 (replicate (n_item st) 0 @ it)
           \<and> Suc (length (imat_rows (i_mat st))) = n_item st + length it"
  using assms
  by (auto simp add: grow_i_mat_def hstack_col_def Let_def split: if_splits sum.splits)

lemma new_item_columns:
  assumes inv: "rect M" "k \<le> length M"
    and M': "M' = map2 (\<lambda>r x. r @ [x]) (take k M @ [replicate (ncols M) 0] @ drop k M) v"
    and len: "Suc (length M) = length v"
  shows "rect M'" "length M' = length v" "ncols M' = Suc (ncols M)"
    and "column M' (ncols M) = v"
    and "j < ncols M \<Longrightarrow> column M' j = take k (column M j) @ [0] @ drop k (column M j)"
proof -
  let ?M1 = "take k M @ [replicate (ncols M) 0] @ drop k M"
  have l1: "length v = length ?M1" using len inv(2) by simp
  have r1: "list_all (\<lambda>r. length r = ncols M) ?M1" using inv(1) by (rule insert_row_rect)
  note h = hstack_columns [OF l1 r1, folded M']
  show len': "length M' = length v" using l1 by (simp add: M')
  then have "M' \<noteq> []" using len by auto
  then obtain r rs where M'_eq: "M' = r # rs" by (cases M') auto
  with h(1) show nc: "ncols M' = Suc (ncols M)" by (simp add: ncols_def)
  from h(1) nc show "rect M'" by (simp add: rect_def)
  show "column M' (ncols M) = v" by (rule h(2))
  show "column M' j = take k (column M j) @ [0] @ drop k (column M j)" if "j < ncols M"
    using h(3) [OF that] that
    by (simp add: column_append column_take column_drop column_Cons)
qed

lemma check_item_imat_inv:
  assumes "imat_inv st" "check_item st d = (None, st')"
  shows "imat_inv st'"
proof (cases "d_i_index d")
  case None
  with assms show ?thesis by (simp add: check_item_def)
next
  case (Some i)
  show ?thesis
  proof (cases "i \<in> dom (items st)")
    case True
    with Some assms show ?thesis by (simp add: check_item_def)
  next
    case False
    define st1 where "st1 = new_item i st"
    from assms(2) Some False obtain it where it: "d_item d = Some it"
      by (cases "d_item d") (simp_all add: check_item_def Let_def)
    obtain r st2 where g2: "grow_i_mat it st1 = (r, st2)" by (cases "grow_i_mat it st1")
    have run': "(case grow_i_mat it st1 of (Some e, st2) \<Rightarrow> (Some e, st2)
                 | (None, st2) \<Rightarrow> grow_R (n_user st2 + c_user (contexts st2)
                     + c_others (contexts st2) + n_item st2 - 1) st2) = (None, st')"
      using assms(2) Some False it by (simp add: check_item_def Let_def st1_def)
    have r: "r = None" using run' g2 by (cases r) simp_all
    have g: "grow_R (n_user st2 + c_user (contexts st2)
               + c_others (contexts st2) + n_item st2 - 1) st2 = (None, st')"
      using run' g2 r by simp
    note f = grow_R_frame [OF g]
    note rows = grow_i_mat_rows [OF g2 [unfolded r]]
    have n1: "n_item st1 = Suc (n_item st)" "i_mat st1 = i_mat st"
      by (simp_all add: st1_def new_item_def)
    have "rect (imat_rows (i_mat st2)) \<and> n_item st2 \<le> length (imat_rows (i_mat st2))"
    proof (cases "imat_size (i_mat st1) = 0")
      case True
      have "rect (imat_rows (i_mat st2))"
        unfolding rows(2) [OF True] by (rule rect_singletons)
      moreover have "n_item st2 \<le> length (imat_rows (i_mat st2))"
        unfolding rows(2) [OF True] rows(1) by simp
      ultimately show ?thesis by simp
    next
      case False
      note e = rows(3) [OF False]
      have inv: "rect (imat_rows (i_mat st1))" "n_item st1 - 1 \<le> length (imat_rows (i_mat st1))"
        using assms(1) n1 by (simp_all add: imat_inv_def)
      have len: "Suc (length (imat_rows (i_mat st1))) = length (replicate (n_item st1) (0::real) @ it)"
        using e by simp
      from new_item_columns(1,2) [OF inv conjunct1 [OF e] len] rows(1) show ?thesis by simp
    qed
    then show ?thesis using f by (simp add: imat_inv_def)
  qed
qed

lemma check_imat_inv: "imat_inv st \<Longrightarrow> check st d = (None, st') \<Longrightarrow> imat_inv st'"
proof -
  assume a: "imat_inv st" "check st d = (None, st')"
  obtain r st1 where c: "check_user st d = (r, st1)" by (cases "check_user st d")
  with a(2) have r: "r = None" and i: "check_item st1 d = (None, st')"
    by (cases r; simp add: check_def)+
  from check_user_frame [OF c] a(1) have "imat_inv st1" by (simp add: imat_inv_def)
  then show ?thesis using i by (rule check_item_imat_inv)
qed

lemma check_all_imat_inv:
  "imat_inv st \<Longrightarrow> check_all st ds = (None, st') \<Longrightarrow> imat_inv st'"
proof (induction ds arbitrary: st)
  case Nil
  then show ?case by simp
next
  case (Cons d ds)
  obtain r st1 where c: "check st d = (r, st1)" by (cases "check st d")
  with Cons.prems(2) have r: "r = None" and rest: "check_all st1 ds = (None, st')"
    by (cases r; simp)+
  from check_imat_inv [OF Cons.prems(1) c [unfolded r]] rest show ?case by (rule Cons.IH)
qed

lemma init_imat_inv: "imat_inv (init c g)"
  by (simp add: imat_inv_def rect_def ncols_def init_def clear_def normal_def)

lemma rebuild_frame:
  "rebuild Uf sf st = (r, st') \<Longrightarrow>
     i_mat st' = i_mat st \<and> n_item st' = n_item st \<and> items st' = items st"
  by (auto simp add: rebuild_def Let_def split: if_splits sum.splits)

lemma update_frame:
  "update f st d = (r, st') \<Longrightarrow>
     i_mat st' = i_mat st \<and> n_item st' = n_item st \<and> items st' = items st"
  by (auto simp add: update_def Let_def split: sum.splits prod.splits dest!: rebuild_frame)

lemma clear_imat_inv: "imat_inv (clear st)"
  by (simp add: imat_inv_def rect_def ncols_def clear_def normal_def)

lemma reachable_imat_inv: "reachable f st \<Longrightarrow> imat_inv st"
proof (induction rule: reachable.induct)
  case (reach_init c g)
  show ?case by (rule init_imat_inv)
next
  case (reach_clear st)
  show ?case by (rule clear_imat_inv)
next
  case (reach_check st d st')
  then show ?case by (auto intro: check_imat_inv)
next
  case (reach_update st d st')
  from update_frame [OF reach_update.hyps(2)] reach_update.IH show ?case
    by (simp add: imat_inv_def)
qed

lemma column_singletons: "column (map (\<lambda>x. [x]) v) 0 = v"
  by (simp add: column_def comp_def)

lemma ncols_singletons: "v \<noteq> [] \<Longrightarrow> ncols (map (\<lambda>x. [x]) v) = 1"
  by (cases v) (simp_all add: ncols_def)

lemma check_item_new_column:
  assumes inv: "imat_inv st"
    and new: "d_i_index d = Some i" "i \<notin> dom (items st)" "d_item d = Some it"
    and run: "check_item st d = (None, st')"
  shows "n_item st' = Suc (n_item st)"
    and "column (imat_rows (i_mat st')) (ncols (imat_rows (i_mat st')) - 1)
           = replicate (Suc (n_item st)) 0 @ it"
    and "imat_size (i_mat st) \<noteq> 0 \<Longrightarrow>
           ncols (imat_rows (i_mat st')) = Suc (ncols (imat_rows (i_mat st)))"
    and "imat_size (i_mat st) \<noteq> 0 \<Longrightarrow> j < ncols (imat_rows (i_mat st)) \<Longrightarrow>
           column (imat_rows (i_mat st')) j
             = take (n_item st) (column (imat_rows (i_mat st)) j) @ [0]
                 @ drop (n_item st) (column (imat_rows (i_mat st)) j)"
proof -
  define st1 where "st1 = new_item i st"
  obtain r st2 where g2: "grow_i_mat it st1 = (r, st2)" by (cases "grow_i_mat it st1")
  have run': "(case grow_i_mat it st1 of (Some e, st2) \<Rightarrow> (Some e, st2)
               | (None, st2) \<Rightarrow> grow_R (n_user st2 + c_user (contexts st2)
                   + c_others (contexts st2) + n_item st2 - 1) st2) = (None, st')"
    using run new by (simp add: check_item_def Let_def st1_def)
  have r: "r = None" using run' g2 by (cases r) simp_all
  have g: "grow_R (n_user st2 + c_user (contexts st2)
             + c_others (contexts st2) + n_item st2 - 1) st2 = (None, st')"
    using run' g2 r by simp
  note f = grow_R_frame [OF g]
  note rows = grow_i_mat_rows [OF g2 [unfolded r]]
  have n1: "n_item st1 = Suc (n_item st)" "i_mat st1 = i_mat st"
    by (simp_all add: st1_def new_item_def)
  show "n_item st' = Suc (n_item st)" using f rows(1) n1 by simp
  have M': "imat_rows (i_mat st') = imat_rows (i_mat st2)" using f by simp
  have ext: "rect (imat_rows (i_mat st))" "n_item st \<le> length (imat_rows (i_mat st))"
    using inv by (simp_all add: imat_inv_def)
  have e: "imat_rows (i_mat st2)
             = map2 (\<lambda>r x. r @ [x])
                 (take (n_item st) (imat_rows (i_mat st))
                    @ [replicate (ncols (imat_rows (i_mat st))) 0]
                    @ drop (n_item st) (imat_rows (i_mat st)))
                 (replicate (Suc (n_item st)) 0 @ it)"
    and len: "Suc (length (imat_rows (i_mat st))) = length (replicate (Suc (n_item st)) (0::real) @ it)"
    if "imat_size (i_mat st) \<noteq> 0"
    using rows(3) that n1 by simp_all
  show "column (imat_rows (i_mat st')) (ncols (imat_rows (i_mat st')) - 1)
          = replicate (Suc (n_item st)) 0 @ it"
  proof (cases "imat_size (i_mat st) = 0")
    case True
    define v where "v = replicate (Suc (n_item st)) (0::real) @ it"
    have ne: "v \<noteq> []" by (simp add: v_def)
    have "imat_rows (i_mat st2) = map (\<lambda>x. [x]) v"
      using rows(2) n1 True by (simp add: v_def)
    then have "column (imat_rows (i_mat st')) (ncols (imat_rows (i_mat st')) - 1) = v"
      unfolding M' by (simp add: ncols_singletons [OF ne] column_singletons)
    then show ?thesis by (simp add: v_def)
  next
    case False
    from new_item_columns(3,4) [OF ext e [OF False] len [OF False]]
    show ?thesis unfolding M' by simp
  qed
  show "ncols (imat_rows (i_mat st')) = Suc (ncols (imat_rows (i_mat st)))"
    if "imat_size (i_mat st) \<noteq> 0"
    using new_item_columns(3) [OF ext e [OF that] len [OF that]] unfolding M' .
  show "column (imat_rows (i_mat st')) j
          = take (n_item st) (column (imat_rows (i_mat st)) j) @ [0]
              @ drop (n_item st) (column (imat_rows (i_mat st)) j)"
    if "imat_size (i_mat st) \<noteq> 0" "j < ncols (imat_rows (i_mat st))"
    using new_item_columns(5) [OF ext e [OF that(1)] len [OF that(1)] that(2)] unfolding M' .
qed

text \<open>
  One item with the context vector \<open>[5, 7]\<close> is registered. Its stored column is
  \<open>[0, 5, 7]\<close>: the identity entry comes first and is 0, the context follows. The
  column that the spec describes is \<open>[5, 7, 1]\<close>.
\<close>

theorem item_column_counterexample:
  "column (imat_rows (i_mat st1)) 0 = [0, 5, 7]
   \<and> spec_item_column [5, 7] (n_item st1) 0 = [5, 7, 1]
   \<and> column (imat_rows (i_mat st1)) 0 \<noteq> spec_item_column [5, 7] (n_item st1) 0
   \<and> 1 \<notin> set (column (imat_rows (i_mat st1)) 0)"
  by (simp add: column_def spec_item_column_def onehot_def st1_def run_defs ex_defs
           split: prod.splits)

text \<open>
  C2, amended. When a new item is registered on a reachable object, the column stored
  for it is the last column of \<open>i_mat\<close>: an identity block of \<open>n_item\<close> entries comes
  first, followed by the static context vector of the item, and every identity entry
  other than the one of the item's own slot is 0. When the registration extends the
  stored matrix (its \<^verbatim>\<open>.size\<close> is not 0), each column stored before keeps its identity
  entries and its context entries, and its new identity entry, the one of the new slot,
  is 0.
\<close>

theorem item_column_stored:
  assumes reach: "reachable f st"
    and new: "d_i_index d = Some i" "i \<notin> dom (items st)" "d_item d = Some it"
    and run: "check st d = (None, st')"
  shows "let M = imat_rows (i_mat st); M' = imat_rows (i_mat st');
             col = column M' (ncols M' - 1)
         in n_item st' = Suc (n_item st)
            \<and> length col = n_item st' + length it
            \<and> drop (n_item st') col = it
            \<and> (\<forall>j<n_item st'. j \<noteq> n_item st \<longrightarrow> col ! j = 0)
            \<and> (imat_size (i_mat st) \<noteq> 0 \<longrightarrow>
                 ncols M' = Suc (ncols M)
                 \<and> (\<forall>j<ncols M.
                       take (n_item st) (column M' j) = take (n_item st) (column M j)
                       \<and> column M' j ! n_item st = 0
                       \<and> drop (n_item st') (column M' j) = drop (n_item st) (column M j)))"
proof -
  have inv: "imat_inv st" using reach by (rule reachable_imat_inv)
  obtain r stu where c: "check_user st d = (r, stu)" by (cases "check_user st d")
  with run have r: "r = None" and ci: "check_item stu d = (None, st')"
    by (cases r; simp add: check_def)+
  from check_user_frame [OF c]
  have f: "i_mat stu = i_mat st" "n_item stu = n_item st" "items stu = items st"
    by simp_all
  have inv_u: "imat_inv stu" using inv f by (simp add: imat_inv_def)
  have new_u: "i \<notin> dom (items stu)" using new(2) f by simp
  note L = check_item_new_column [OF inv_u new(1) new_u new(3) ci, unfolded f]
  define M where "M = imat_rows (i_mat st)"
  define M' where "M' = imat_rows (i_mat st')"
  define col where "col = column M' (ncols M' - 1)"
  have n': "n_item st' = Suc (n_item st)" by (rule L(1))
  have col: "col = replicate (Suc (n_item st)) 0 @ it"
    unfolding col_def M'_def by (rule L(2))
  have k: "n_item st \<le> length M" using inv by (simp add: imat_inv_def M_def)
  have old: "take (n_item st) (column M' j) = take (n_item st) (column M j)
             \<and> column M' j ! n_item st = 0
             \<and> drop (n_item st') (column M' j) = drop (n_item st) (column M j)"
    if "imat_size (i_mat st) \<noteq> 0" "j < ncols M" for j
  proof -
    have e: "column M' j = take (n_item st) (column M j) @ [0] @ drop (n_item st) (column M j)"
      using L(4) [OF that(1)] that(2) by (simp add: M_def M'_def)
    have l: "length (take (n_item st) (column M j)) = n_item st" using k by simp
    show ?thesis unfolding e n' using l by (simp add: nth_append)
  qed
  have "n_item st' = Suc (n_item st)
        \<and> length col = n_item st' + length it
        \<and> drop (n_item st') col = it
        \<and> (\<forall>j<n_item st'. j \<noteq> n_item st \<longrightarrow> col ! j = 0)
        \<and> (imat_size (i_mat st) \<noteq> 0 \<longrightarrow>
             ncols M' = Suc (ncols M)
             \<and> (\<forall>j<ncols M.
                   take (n_item st) (column M' j) = take (n_item st) (column M j)
                   \<and> column M' j ! n_item st = 0
                   \<and> drop (n_item st') (column M' j) = drop (n_item st) (column M j)))"
  proof (intro conjI impI allI)
    show "n_item st' = Suc (n_item st)" by (rule n')
    show "length col = n_item st' + length it" unfolding col n' by simp
    show "drop (n_item st') col = it" unfolding col n' by simp
    show "col ! j = 0" if "j < n_item st'" for j
      using that unfolding col n' by (simp add: nth_append del: replicate.simps)
    show "ncols M' = Suc (ncols M)" if "imat_size (i_mat st) \<noteq> 0"
      using L(3) [OF that] by (simp add: M_def M'_def)
  qed (use old in blast)+
  then show ?thesis unfolding Let_def M_def M'_def col_def .
qed

theorem item_column_stored_witness:
  "reachable svd34 st1
   \<and> d_i_index (ev 1 1) = Some 1 \<and> 1 \<notin> dom (items st1) \<and> d_item (ev 1 1) = Some [5, 7]
   \<and> check st1 (ev 1 1) = (None, st2)
   \<and> (let M = imat_rows (i_mat st1); M' = imat_rows (i_mat st2);
           col = column M' (ncols M' - 1)
       in n_item st2 = Suc (n_item st1)
          \<and> length col = n_item st2 + length [5::real, 7]
          \<and> drop (n_item st2) col = [5, 7]
          \<and> (\<forall>j<n_item st2. j \<noteq> n_item st1 \<longrightarrow> col ! j = 0)
          \<and> (imat_size (i_mat st1) \<noteq> 0 \<longrightarrow>
               ncols M' = Suc (ncols M)
               \<and> (\<forall>j<ncols M.
                     take (n_item st1) (column M' j) = take (n_item st1) (column M j)
                     \<and> column M' j ! n_item st1 = 0
                     \<and> drop (n_item st2) (column M' j) = drop (n_item st1) (column M j))))"
proof -
  have a: "d_i_index (ev 1 1) = Some 1" "d_item (ev 1 1) = Some [5, 7]"
    by (simp_all add: ev_def)
  have b: "1 \<notin> dom (items st1)"
    by (simp add: st1_def run_defs ex_defs split: prod.splits)
  from item_column_stored [OF st1_reachable a(1) b a(2) st2_run] st1_reachable a b st2_run
  show ?thesis by blast
qed

lemma st2_columns:
  "imat_size (i_mat st1) \<noteq> 0 \<and> i_mat st1 = Nd [[0], [5], [7]]
   \<and> i_mat st2 = Csr [[0, 0], [0, 0], [5, 5], [7, 7]]"
  by (simp add: st2_def st1_def run_defs ex_defs split: prod.splits)

subsection \<open>The order of the blocks\<close>

lemma set_one_onehot:
  "0 \<le> u \<Longrightarrow> u < int n \<Longrightarrow> set_one (replicate n 0 @ xs) u = Inr (onehot n (nat u) @ xs)"
  by (simp add: set_one_def py_index_def onehot_def list_update_append1)

lemma check_known_item_frame:
  assumes "check st d = (None, st')" "d_i_index d = Some i" "i \<in> dom (items st)"
  shows "i_mat st' = i_mat st" "n_item st' = n_item st"
proof -
  obtain r stu where c: "check_user st d = (r, stu)" by (cases "check_user st d")
  with assms(1) have r: "r = None" and ci: "check_item stu d = (None, st')"
    by (cases r; simp add: check_def)+
  from check_user_frame [OF c]
  have f: "i_mat stu = i_mat st" "n_item stu = n_item st" "items stu = items st" by simp_all
  from ci assms(2,3) f(3) have "st' = stu" by (simp add: check_item_def)
  with f show "i_mat st' = i_mat st" "n_item st' = n_item st" by simp_all
qed

lemma check_item_reset_ncols:
  assumes new: "d_i_index d = Some i" "i \<notin> dom (items st)" "d_item d = Some it"
    and run: "check_item st d = (None, st')" and z: "imat_size (i_mat st) = 0"
  shows "ncols (imat_rows (i_mat st')) = 1"
proof -
  define st1 where "st1 = new_item i st"
  obtain r st2 where g2: "grow_i_mat it st1 = (r, st2)" by (cases "grow_i_mat it st1")
  have run': "(case grow_i_mat it st1 of (Some e, st2) \<Rightarrow> (Some e, st2)
               | (None, st2) \<Rightarrow> grow_R (n_user st2 + c_user (contexts st2)
                   + c_others (contexts st2) + n_item st2 - 1) st2) = (None, st')"
    using run new by (simp add: check_item_def Let_def st1_def)
  have r: "r = None" using run' g2 by (cases r) simp_all
  have g: "grow_R (n_user st2 + c_user (contexts st2)
             + c_others (contexts st2) + n_item st2 - 1) st2 = (None, st')"
    using run' g2 r by simp
  have n1: "n_item st1 = Suc (n_item st)" "i_mat st1 = i_mat st"
    by (simp_all add: st1_def new_item_def)
  define v where "v = replicate (n_item st1) (0::real) @ it"
  have ne: "v \<noteq> []" by (simp add: v_def n1)
  have "imat_rows (i_mat st2) = map (\<lambda>x. [x]) v"
    using grow_i_mat_rows(2) [OF g2 [unfolded r]] z n1 by (simp add: v_def)
  moreover have "i_mat st' = i_mat st2" using grow_R_frame [OF g] by simp
  ultimately show ?thesis by (simp add: ncols_singletons [OF ne])
qed

lemma check_new_item_columns:
  assumes inv: "imat_inv st"
    and new: "d_i_index d = Some i" "i \<notin> dom (items st)" "d_item d = Some it"
    and run: "check st d = (None, st')"
  shows "n_item st' = Suc (n_item st)"
    and "column (imat_rows (i_mat st')) (ncols (imat_rows (i_mat st')) - 1)
           = replicate (Suc (n_item st)) 0 @ it"
    and "imat_size (i_mat st) = 0 \<Longrightarrow> ncols (imat_rows (i_mat st')) = 1"
    and "imat_size (i_mat st) \<noteq> 0 \<Longrightarrow>
           ncols (imat_rows (i_mat st')) = Suc (ncols (imat_rows (i_mat st)))"
    and "imat_size (i_mat st) \<noteq> 0 \<Longrightarrow> j < ncols (imat_rows (i_mat st)) \<Longrightarrow>
           column (imat_rows (i_mat st')) j
             = take (n_item st) (column (imat_rows (i_mat st)) j) @ [0]
                 @ drop (n_item st) (column (imat_rows (i_mat st)) j)"
proof -
  obtain r stu where c: "check_user st d = (r, stu)" by (cases "check_user st d")
  with run have r: "r = None" and ci: "check_item stu d = (None, st')"
    by (cases r; simp add: check_def)+
  from check_user_frame [OF c]
  have f: "i_mat stu = i_mat st" "n_item stu = n_item st" "items stu = items st"
    by simp_all
  have inv_u: "imat_inv stu" using inv f by (simp add: imat_inv_def)
  have new_u: "i \<notin> dom (items stu)" using new(2) f by simp
  note L = check_item_new_column [OF inv_u new(1) new_u new(3) ci, unfolded f]
  show "n_item st' = Suc (n_item st)" by (rule L(1))
  show "column (imat_rows (i_mat st')) (ncols (imat_rows (i_mat st')) - 1)
          = replicate (Suc (n_item st)) 0 @ it" by (rule L(2))
  show "ncols (imat_rows (i_mat st')) = 1" if "imat_size (i_mat st) = 0"
    using check_item_reset_ncols [OF new(1) new_u new(3) ci] that f by simp
  show "ncols (imat_rows (i_mat st')) = Suc (ncols (imat_rows (i_mat st)))"
    if "imat_size (i_mat st) \<noteq> 0" using L(3) [OF that] .
  show "column (imat_rows (i_mat st')) j
          = take (n_item st) (column (imat_rows (i_mat st)) j) @ [0]
              @ drop (n_item st) (column (imat_rows (i_mat st)) j)"
    if "imat_size (i_mat st) \<noteq> 0" "j < ncols (imat_rows (i_mat st))"
    using L(4) [OF that] .
qed


lemma stores_reachable: "stores f st cs \<Longrightarrow> reachable f st"
  by (induction rule: stores.induct) (auto intro: reachable.intros)

lemma stored_columns_new:
  assumes inv: "imat_inv st" and sc: "stored_columns st cs"
    and new: "d_i_index d = Some i" "i \<notin> dom (items st)" "d_item d = Some it"
    and run: "check st d = (None, st')"
  shows "stored_columns st' (if imat_size (i_mat st) = 0 then [it] else cs @ [it])"
proof -
  note L = check_new_item_columns [OF inv new run]
  let ?M = "imat_rows (i_mat st)" and ?M' = "imat_rows (i_mat st')"
  show ?thesis
  proof (cases "imat_size (i_mat st) = 0")
    case True
    from L(2) L(3) [OF True] have "column ?M' 0 = replicate (Suc (n_item st)) 0 @ it" by simp
    with L(1) L(3) [OF True] True show ?thesis by (simp add: stored_columns_def)
  next
    case False
    from sc have nc: "ncols ?M = length cs"
      and old: "\<And>j. j < length cs \<Longrightarrow> column ?M j = replicate (n_item st) 0 @ cs ! j"
      by (simp_all add: stored_columns_def)
    have nc': "ncols ?M' = Suc (length cs)" using L(4) [OF False] nc by simp
    have "column ?M' j = replicate (n_item st') 0 @ (cs @ [it]) ! j" if "j < Suc (length cs)" for j
    proof (cases "j < length cs")
      case True
      then have "column ?M' j = take (n_item st) (column ?M j) @ [0]
                   @ drop (n_item st) (column ?M j)"
        using L(5) [OF False] nc by simp
      also have "\<dots> = replicate (n_item st) 0 @ [0] @ cs ! j"
        by (simp add: old [OF True])
      also have "\<dots> = replicate (Suc (n_item st)) 0 @ cs ! j"
        by (simp add: replicate_append_same)
      finally show ?thesis using True L(1) by (simp add: nth_append)
    next
      case False
      with that have j: "j = length cs" by simp
      have "column ?M' (length cs) = replicate (Suc (n_item st)) 0 @ it"
        using L(2) nc' by simp
      then show ?thesis using L(1) by (simp add: j)
    qed
    with nc' False show ?thesis by (simp add: stored_columns_def)
  qed
qed

lemma stores_columns: "stores f st cs \<Longrightarrow> stored_columns st cs"
proof (induction rule: stores.induct)
  case (stores_init c g)
  show ?case by (simp add: stored_columns_def init_def clear_def normal_def ncols_def)
next
  case (stores_clear st cs)
  show ?case by (simp add: stored_columns_def clear_def normal_def ncols_def)
next
  case (stores_update st cs d st')
  from update_frame [OF stores_update.hyps(2)] stores_update.IH show ?case
    by (simp add: stored_columns_def)
next
  case (stores_known st cs d st' i)
  from check_known_item_frame [OF stores_known.hyps(2,3,4)] stores_known.IH show ?case
    by (simp add: stored_columns_def)
next
  case (stores_new st cs d st' i it)
  have "imat_inv st" using stores_new.hyps(1) by (intro reachable_imat_inv stores_reachable)
  from stored_columns_new [OF this stores_new.IH stores_new.hyps(3,4,5,2)] show ?case .
qed


lemma py_indices_valid:
  "\<forall>t\<in>set ts. 0 \<le> t \<and> t < int n \<Longrightarrow> py_indices n ts = Inr (map nat ts)"
  by (induction ts) (simp_all add: py_index_def)

lemma column_select:
  "k < length js \<Longrightarrow> column (map (\<lambda>r. map (\<lambda>j. r ! j) js) M) k = column M (js ! k)"
  by (simp add: column_def)

lemma column_broadcast: "k < n \<Longrightarrow> column (map (\<lambda>x. replicate n x) u) k = u"
  by (simp add: column_def map_idI)

lemma candidates_columns:
  assumes d: "d_user d = Some us" "d_others d = Some os" "d_u_index d = Some u"
    and u: "0 \<le> u" "u < int (n_user st)"
    and sc: "stored_columns st cs"
    and ts: "\<forall>t\<in>set ts. 0 \<le> t \<and> t < int (length cs)"
  shows "\<exists>Y. candidates st d ts = Inr Y
           \<and> (\<forall>k<length ts.
                 column Y k = onehot (n_user st) (nat u) @ us @ os
                                @ replicate (n_item st) 0 @ cs ! nat (ts ! k))"
proof -
  let ?M = "imat_rows (i_mat st)"
  let ?u = "onehot (n_user st) (nat u) @ us @ os"
  from sc have nc: "ncols ?M = length cs"
    and col: "\<And>j. j < length cs \<Longrightarrow> column ?M j = replicate (n_item st) 0 @ cs ! j"
    by (simp_all add: stored_columns_def)
  have sel: "select_columns ?M ts = Inr (map (\<lambda>r. map (\<lambda>j. r ! j) (map nat ts)) ?M)"
    using py_indices_valid [OF ts] by (simp add: select_columns_def nc)
  have one: "set_one (replicate (n_user st) 0 @ us @ os) u = Inr ?u"
    using u by (rule set_one_onehot)
  have Y: "candidates st d ts
             = Inr (map (\<lambda>x. replicate (length ts) x) ?u
                      @ map (\<lambda>r. map (\<lambda>j. r ! j) (map nat ts)) ?M)"
    by (simp add: candidates_def sel d one)
  have "column (map (\<lambda>x. replicate (length ts) x) ?u
                  @ map (\<lambda>r. map (\<lambda>j. r ! j) (map nat ts)) ?M) k
          = ?u @ replicate (n_item st) 0 @ cs ! nat (ts ! k)" if k: "k < length ts" for k
  proof -
    from ts k have "nat (ts ! k) < length cs" by (auto simp add: nat_less_iff)
    note c = col [OF this]
    have k': "k < length (map nat ts)" using k by simp
    have "column (map (\<lambda>r. map (\<lambda>j. r ! j) (map nat ts)) ?M) k = column ?M (map nat ts ! k)"
      using k' by (rule column_select)
    also have "\<dots> = replicate (n_item st) 0 @ cs ! nat (ts ! k)" using c k by simp
    finally have im: "column (map (\<lambda>r. map (\<lambda>j. r ! j) (map nat ts)) ?M) k
                       = replicate (n_item st) 0 @ cs ! nat (ts ! k)" .
    have "column (map (\<lambda>x. replicate (length ts) x) ?u) k = ?u"
      using k by (rule column_broadcast)
    with im show ?thesis by (simp only: column_append append_assoc)
  qed
  with Y show ?thesis by simp
qed

lemma st3_run: "check st2 (ev 0 2) = (None, st3)"
proof -
  have "fst (check_all (init c0 g0) [ev 0 0, ev 1 1, ev 0 2]) = None"
    by (simp add: run_defs ex_defs split: prod.splits)
  then have a: "check_all (init c0 g0) [ev 0 0, ev 1 1, ev 0 2] = (None, st3)"
    by (simp add: prod_eq_iff st3_def)
  have "check_all (init c0 g0) [ev 0 0, ev 1 1, ev 0 2] = check_all st2 [ev 0 2]"
    by (simp add: st1_run st2_run)
  with a have "check_all st2 [ev 0 2] = (None, st3)" by simp
  then show ?thesis
    by (cases "check st2 (ev 0 2)") (auto split: option.splits)
qed

lemma st3_stores: "stores f st3 [[5, 7], [5, 7], [5, 7]]"
proof -
  have e: "d_i_index (ev 0 0) = Some 0" "d_i_index (ev 1 1) = Some 1" "d_i_index (ev 0 2) = Some 2"
    "d_item (ev 0 0) = Some [5, 7]" "d_item (ev 1 1) = Some [5, 7]" "d_item (ev 0 2) = Some [5, 7]"
    by (simp_all add: ev_def)
  have n0: "0 \<notin> dom (items (init c0 g0))" by (simp add: init_def clear_def normal_def)
  have n1: "1 \<notin> dom (items st1)"
    by (simp add: st1_def run_defs ex_defs split: prod.splits)
  have n2: "2 \<notin> dom (items st2)"
    by (simp add: st2_def st1_def run_defs ex_defs split: prod.splits)
  have z1: "imat_size (i_mat st1) \<noteq> 0"
    using st2_columns by blast
  have "i_mat st2 = Csr [[0, 0], [0, 0], [5, 5], [7, 7]]"
    using st2_columns by blast
  then have z2: "imat_size (i_mat st2) \<noteq> 0" by simp
  note z = z1 z2
  have i: "(if imat_size (i_mat (init c0 g0)) = 0 then [[5, 7]] else [] @ [[5, 7]]) = [[5, 7::real]]"
    by simp
  have "stores f st1 [[5, 7]]"
    using stores_new [OF stores_init st1_run e(1) n0 e(4), of f] unfolding i .
  from stores_new [OF this st2_run e(2) n1 e(5)] z(1)
  have "stores f st2 [[5, 7], [5, 7]]" by simp
  from stores_new [OF this st3_run e(3) n2 e(6)] z(2)
  show ?thesis by simp
qed

text \<open>
  Users 0, 1 and items 0, 1, 2 are registered; the sample has user 1, item 2, the user
  context \<open>[1/2]\<close> and the item context \<open>[5, 7]\<close>. The update assembles the identity of
  the item before its context; the order of the spec puts the context \<open>5, 7\<close> first.
  The candidate matrix of \<^verbatim>\<open>_Base__recommend\<close> for the target 2 has one column, with
  the three identity rows of the items before the context rows \<open>5, 7\<close>; it is not the
  column of the spec's order, whatever the identity entries are taken to be (one-hot or
  as stored).
\<close>

theorem feature_layout_counterexample:
  "features st3 (ev 1 2) = Inr [0, 1, 1 / 2, 0, 0, 1, 5, 7]
   \<and> spec_layout (onehot 2 1) [1 / 2] [] [5, 7] (onehot 3 2)
       = [0, 1, 1 / 2, 5, 7, 0, 0, 1]
   \<and> features st3 (ev 1 2) \<noteq> Inr (spec_layout (onehot 2 1) [1 / 2] [] [5, 7] (onehot 3 2))
   \<and> candidates st3 (ev 1 2) [2] = Inr [[0], [1], [1 / 2], [0], [0], [0], [5], [7]]
   \<and> candidates st3 (ev 1 2) [2]
       \<noteq> Inr (map (\<lambda>x. [x]) (spec_layout (onehot 2 1) [1 / 2] [] [5, 7] (onehot 3 2)))
   \<and> candidates st3 (ev 1 2) [2]
       \<noteq> Inr (map (\<lambda>x. [x]) (spec_layout (onehot 2 1) [1 / 2] [] [5, 7] (replicate 3 0)))"
proof -
  have f: "features st3 (ev 1 2) = Inr [0, 1, 1 / 2, 0, 0, 1, 5, 7]"
    by (simp add: features_def set_one_def py_index_def st3_def run_defs ex_defs
          split: prod.splits)
  have c: "candidates st3 (ev 1 2) [2] = Inr [[0], [1], [1 / 2], [0], [0], [0], [5], [7]]"
    by (simp add: candidates_def select_columns_def set_one_def py_index_def st3_def
          run_defs ex_defs split: prod.splits)
  have s: "spec_layout (onehot 2 1) [1 / 2] [] [5, 7] (onehot 3 2)
             = [0, 1, 1 / 2, 5, 7, 0, 0, 1]"
    "spec_layout (onehot 2 1) [1 / 2] [] [5, 7] (replicate 3 0)
             = [0, 1, 1 / 2, 5, 7, 0, 0, 0]"
    by (simp_all add: spec_layout_def onehot_def numeral_3_eq_3 numeral_2_eq_2)
  show ?thesis unfolding f c s by simp
qed

text \<open>
  C3, amended. For a sample whose user and item indices are slots of the object, the
  feature vector that the update assembles has the order
  [user identity one-hot][user context][other context][item identity one-hot][item context]:
  the identity block of the item precedes its context. The stacked matrix of
  \<^verbatim>\<open>_Base__recommend\<close> has the rows
  [user identity one-hot][user context][other context], each repeated for every target,
  on top of the selected columns of \<open>i_mat\<close>. On an object reached by a run of the
  methods, for targets that are non-negative column indices of \<open>i_mat\<close>, each column of
  the stacked matrix is
  [user identity one-hot][user context][other context][item identity block of \<open>n_item\<close>
  entries][context of the stored item]: there too the identity block of the item
  precedes its context.
\<close>

theorem feature_layout:
  assumes "d_user d = Some us" "d_others d = Some os" "d_item d = Some it"
    and "d_u_index d = Some u" "0 \<le> u" "u < int (n_user st)"
    and "d_i_index d = Some i" "0 \<le> i" "i < int (n_item st)"
  shows "features st d
           = Inr (onehot (n_user st) (nat u) @ us @ os @ onehot (n_item st) (nat i) @ it)
         \<and> candidates st d ts
           = (case select_columns (imat_rows (i_mat st)) ts of
                Inl e \<Rightarrow> Inl e
              | Inr im \<Rightarrow>
                  Inr (map (\<lambda>x. replicate (length ts) x)
                         (onehot (n_user st) (nat u) @ us @ os) @ im))
         \<and> (stores f st cs \<longrightarrow> (\<forall>t\<in>set ts. 0 \<le> t \<and> t < int (length cs)) \<longrightarrow>
              (\<exists>Y. candidates st d ts = Inr Y
                 \<and> (\<forall>k<length ts. \<exists>idb. length idb = n_item st
                       \<and> column Y k = onehot (n_user st) (nat u) @ us @ os
                                        @ idb @ cs ! nat (ts ! k))))"
proof -
  have u: "set_one (replicate (n_user st) 0 @ us) u = Inr (onehot (n_user st) (nat u) @ us)"
    using assms(5,6) by (rule set_one_onehot)
  have u': "set_one (replicate (n_user st) 0 @ us @ os) u
              = Inr (onehot (n_user st) (nat u) @ us @ os)"
    using assms(5,6) by (rule set_one_onehot)
  have i: "set_one (replicate (n_item st) 0 @ it) i = Inr (onehot (n_item st) (nat i) @ it)"
    using assms(8,9) by (rule set_one_onehot)
  have a: "features st d
             = Inr (onehot (n_user st) (nat u) @ us @ os @ onehot (n_item st) (nat i) @ it)"
    using assms(1-4,7) u i by (simp add: features_def)
  have b: "candidates st d ts
             = (case select_columns (imat_rows (i_mat st)) ts of
                  Inl e \<Rightarrow> Inl e
                | Inr im \<Rightarrow>
                    Inr (map (\<lambda>x. replicate (length ts) x)
                           (onehot (n_user st) (nat u) @ us @ os) @ im))"
    using assms(1,2,4) u' by (simp add: candidates_def split: sum.splits)
  have c: "\<exists>Y. candidates st d ts = Inr Y
             \<and> (\<forall>k<length ts. \<exists>idb. length idb = n_item st
                   \<and> column Y k = onehot (n_user st) (nat u) @ us @ os
                                    @ idb @ cs ! nat (ts ! k))"
    if s: "stores f st cs" and t: "\<forall>t\<in>set ts. 0 \<le> t \<and> t < int (length cs)"
  proof -
    from candidates_columns [OF assms(1,2,4,5,6) stores_columns [OF s] t]
    obtain Y where Y: "candidates st d ts = Inr Y"
      and cols: "\<And>k. k < length ts \<Longrightarrow>
                   column Y k = onehot (n_user st) (nat u) @ us @ os
                                  @ replicate (n_item st) 0 @ cs ! nat (ts ! k)"
      by blast
    have "\<exists>idb. length idb = n_item st
            \<and> column Y k = onehot (n_user st) (nat u) @ us @ os @ idb @ cs ! nat (ts ! k)"
      if "k < length ts" for k
      using cols [OF that] by (intro exI [of _ "replicate (n_item st) 0"]) simp
    with Y show ?thesis by blast
  qed
  from a b c show ?thesis by blast
qed

theorem feature_layout_witness:
  "d_user (ev 1 2) = Some [1 / 2] \<and> d_others (ev 1 2) = Some [] \<and> d_item (ev 1 2) = Some [5, 7]
   \<and> d_u_index (ev 1 2) = Some 1 \<and> 1 < int (n_user st3)
   \<and> d_i_index (ev 1 2) = Some 2 \<and> 2 < int (n_item st3)
   \<and> stores svd34 st3 [[5, 7], [5, 7], [5, 7]]
   \<and> features st3 (ev 1 2)
       = Inr (onehot (n_user st3) (nat 1) @ [1 / 2] @ [] @ onehot (n_item st3) (nat 2) @ [5, 7])
   \<and> candidates st3 (ev 1 2) [2, 0]
       = (case select_columns (imat_rows (i_mat st3)) [2, 0] of
            Inl e \<Rightarrow> Inl e
          | Inr im \<Rightarrow>
              Inr (map (\<lambda>x. replicate (length [2::int, 0]) x)
                     (onehot (n_user st3) (nat 1) @ [1 / 2] @ []) @ im))
   \<and> (\<exists>Y. candidates st3 (ev 1 2) [2, 0] = Inr Y
         \<and> (\<exists>idb. length idb = n_item st3
               \<and> column Y 0 = onehot (n_user st3) (nat 1) @ [1 / 2] @ [] @ idb @ [5, 7])
         \<and> (\<exists>idb. length idb = n_item st3
               \<and> column Y 1 = onehot (n_user st3) (nat 1) @ [1 / 2] @ [] @ idb @ [5, 7]))"
proof -
  have a: "d_user (ev 1 2) = Some [1 / 2]" "d_others (ev 1 2) = Some []"
    "d_item (ev 1 2) = Some [5, 7]" "d_u_index (ev 1 2) = Some 1" "d_i_index (ev 1 2) = Some 2"
    by (simp_all add: ev_def)
  have n: "n_user st3 = 2" "n_item st3 = 3"
    by (simp_all add: st3_def run_defs ex_defs split: prod.splits)
  have b: "(0::int) \<le> 1" "1 < int (n_user st3)" "(0::int) \<le> 2" "2 < int (n_item st3)"
    using n by simp_all
  have t: "\<forall>t\<in>set [2, 0]. 0 \<le> t \<and> t < int (length [[5, 7], [5, 7], [5, 7::real]])"
    by simp
  note s = st3_stores [of svd34]
  note L = feature_layout [OF a(1,2,3) a(4) b(1,2) a(5) b(3,4), of "[2, 0]" svd34
             "[[5, 7], [5, 7], [5, 7]]"]
  from L s t obtain Y where Y: "candidates st3 (ev 1 2) [2, 0] = Inr Y"
    and cols: "\<And>k. k < length [2::int, 0] \<Longrightarrow> \<exists>idb. length idb = n_item st3
                 \<and> column Y k = onehot (n_user st3) (nat 1) @ [1 / 2] @ []
                                  @ idb @ [[5, 7], [5, 7], [5, 7]] ! nat ([2, 0] ! k)"
    by blast
  have c0: "\<exists>idb. length idb = n_item st3
              \<and> column Y 0 = onehot (n_user st3) (nat 1) @ [1 / 2] @ [] @ idb @ [5, 7]"
    using cols [of 0] by (simp add: numeral_2_eq_2)
  have c1: "\<exists>idb. length idb = n_item st3
              \<and> column Y 1 = onehot (n_user st3) (nat 1) @ [1 / 2] @ [] @ idb @ [5, 7]"
    using cols [of 1] by simp
  from L a b s Y c0 c1 show ?thesis by blast
qed

subsection \<open>The last column of the sketch\<close>

lemma diag_length [simp]: "length (diag s) = length s"
  by (simp add: diag_def)

lemma ncols_map_upt: "0 < n \<Longrightarrow> ncols (map f [0..<n]) = length (f 0)"
  by (subst upt_conv_Cons) (simp_all add: ncols_def)

lemma ncols_diag [simp]: "ncols (diag s) = length s"
proof (cases s)
  case Nil
  then show ?thesis by (simp add: diag_def ncols_def)
next
  case (Cons a list)
  then show ?thesis unfolding diag_def by (subst ncols_map_upt) simp_all
qed

lemma column_diag:
  "j < length s \<Longrightarrow> column (diag s) j = map (\<lambda>i. if i = j then s ! j else 0) [0..<length s]"
  by (auto simp add: column_def diag_def)

lemma dot_unit:
  assumes "length r = n" "j < n"
  shows "dot r (map (\<lambda>i. if i = j then c else 0) [0..<n]) = r ! j * c"
proof -
  have "map2 (*) r (map (\<lambda>i. if i = j then c else 0) [0..<n])
          = map (\<lambda>i. r ! i * (if i = j then c else 0)) [0..<n]"
    using assms(1) by (intro nth_equalityI) simp_all
  then have "dot r (map (\<lambda>i. if i = j then c else 0) [0..<n])
          = (\<Sum>i = 0..<n. r ! i * (if i = j then c else 0))"
    by (simp add: dot_def interv_sum_list_conv_sum_set_nat)
  also have "\<dots> = (\<Sum>i = 0..<n. if i = j then r ! j * c else 0)"
    by (intro sum.cong) auto
  also have "\<dots> = r ! j * c" using assms(2) by simp
  finally show ?thesis .
qed

lemma mat_mul_diag:
  assumes "list_all (\<lambda>r. length r = length s) Um"
  shows "mat_mul Um (diag s) = Inr (map (\<lambda>r. map2 (*) r s) Um)"
proof -
  have row: "map (\<lambda>c. dot r c) (mat_T (diag s)) = map2 (*) r s" if "length r = length s" for r
  proof (intro nth_equalityI)
    show "length (map (\<lambda>c. dot r c) (mat_T (diag s))) = length (map2 (*) r s)"
      using that by (simp add: mat_T_def)
    fix j assume "j < length (map (\<lambda>c. dot r c) (mat_T (diag s)))"
    then have j: "j < length s" by (simp add: mat_T_def)
    then show "map (\<lambda>c. dot r c) (mat_T (diag s)) ! j = map2 (*) r s ! j"
      using that by (simp add: mat_T_def column_diag dot_unit)
  qed
  have "map (\<lambda>r. map (\<lambda>c. dot r c) (mat_T (diag s))) Um = map (\<lambda>r. map2 (*) r s) Um"
    using assms by (intro map_cong refl row) (simp add: list_all_iff)
  then show ?thesis using assms by (simp add: mat_mul_def)
qed

lemma shrink_length [simp]: "length (shrink s) = length s"
  by (simp add: shrink_def Let_def)

lemma shrink_last: "s \<noteq> [] \<Longrightarrow> last (shrink s) = 0"
  by (simp add: shrink_def Let_def last_map)

lemma update_steps:
  assumes "update f st d = (None, st')"
  obtains y B1 Uf sf Vf where "observation st d = Inr y"
    "set_column (m_B st) (target_column st) y = Inr B1" "f B1 = Inr (Uf, sf, Vf)"
    "rebuild Uf sf (st\<lparr>m_B := B1\<rparr>) = (None, st')"
  using assms by (auto simp add: update_def Let_def split: sum.splits prod.splits)

lemma rebuild_steps:
  assumes "rebuild Uf sf st = (None, st')"
  shows "take (ell st) sf \<noteq> []"
    and "list_all (\<lambda>r. length r = length (take (ell st) sf)) (map (take (ell st)) Uf)"
    and "m_B st' = map (\<lambda>r. map2 (*) r (shrink (take (ell st) sf))) (map (take (ell st)) Uf)"
    and "m_U st' = Some (map (take (ell st)) Uf)"
    and "ell st' = ell st" "m_k st' = m_k st"
proof -
  let ?U = "map (take (ell st)) Uf" and ?s = "take (ell st) sf"
  show ne: "?s \<noteq> []" using assms by (auto simp add: rebuild_def Let_def split: if_splits)
  obtain M where M: "mat_mul ?U (diag (shrink ?s)) = Inr M"
    and st': "st' = st\<lparr>m_U := Some ?U, m_B := M\<rparr>"
    using assms ne by (auto simp add: rebuild_def Let_def split: sum.splits)
  from M show l: "list_all (\<lambda>r. length r = length ?s) ?U"
    by (simp add: mat_mul_def split: if_splits)
  then have "list_all (\<lambda>r. length r = length (shrink ?s)) ?U" by simp
  from mat_mul_diag [OF this] M have "M = map (\<lambda>r. map2 (*) r (shrink ?s)) ?U" by simp
  then show "m_B st' = map (\<lambda>r. map2 (*) r (shrink ?s)) ?U" by (simp add: st')
  show "m_U st' = Some ?U" "ell st' = ell st" "m_k st' = m_k st" by (simp_all add: st')
qed

lemma set_column_shape:
  assumes "set_column M j y = Inr B1"
  shows "length B1 = length M" "ncols B1 = ncols M"
    and "list_all (\<lambda>r. length r = n) M \<Longrightarrow> list_all (\<lambda>r. length r = n) B1"
proof -
  obtain c where B1: "B1 = map2 (\<lambda>r x. r[c := x]) M y" and len: "length y = length M"
    using assms by (auto simp add: set_column_def split: sum.splits if_splits)
  show "length B1 = length M" using len by (simp add: B1)
  show "ncols B1 = ncols M"
  proof (cases M)
    case Nil
    then show ?thesis by (simp add: B1 ncols_def)
  next
    case (Cons r rs)
    with len obtain x xs where "y = x # xs" by (cases y) auto
    with Cons show ?thesis by (simp add: B1 ncols_def)
  qed
  show "list_all (\<lambda>r. length r = n) B1" if "list_all (\<lambda>r. length r = n) M"
    using that by (auto simp add: B1 list_all_iff dest!: set_zip_leftD)
qed

lemma ncols_rows: "M \<noteq> [] \<Longrightarrow> list_all (\<lambda>r. length r = n) M \<Longrightarrow> ncols M = n"
  by (cases M) (simp_all add: ncols_def)

lemma update_sketch:
  assumes contract: "reduced_svd_shape f" and inv: "sketch_inv st"
    and run: "update f st d = (None, st')"
  shows "sketch_inv st'" and "all_zero (column (m_B st') (ell st' - 1))"
    and "ncols (m_B st') = ell st'"
proof -
  from run obtain y B1 Uf sf Vf where
    sc: "set_column (m_B st) (target_column st) y = Inr B1" and
    f: "f B1 = Inr (Uf, sf, Vf)" and
    rb: "rebuild Uf sf (st\<lparr>m_B := B1\<rparr>) = (None, st')"
    by (rule update_steps)
  from inv have l: "0 < ell st" "ell st \<le> m_k st" "length (m_B st) = m_k st"
    "list_all (\<lambda>r. length r = ell st) (m_B st)" by (simp_all add: sketch_inv_def)
  then have "m_B st \<noteq> []" by auto
  from ncols_rows [OF this l(4)] have nc: "ncols (m_B st) = ell st" .
  note B1 = set_column_shape [OF sc]
  from contract f have "length Uf = length B1" "length sf = min (length B1) (ncols B1)"
    unfolding reduced_svd_shape_def by blast+
  with B1(1,2) nc l have Uf: "length Uf = m_k st" and sf: "length sf = ell st" by simp_all
  note r = rebuild_steps [OF rb, simplified]
  define s where "s = take (ell st) sf"
  define Um where "Um = map (take (ell st)) Uf"
  have s_len: "length s = ell st" using sf by (simp add: s_def)
  have s_ne: "s \<noteq> []" using s_len l(1) by auto
  have rows: "list_all (\<lambda>r. length r = ell st) Um"
    using r(2) sf by (simp add: Um_def)
  have B': "m_B st' = map (\<lambda>r. map2 (*) r (shrink s)) Um"
    using r(3) by (simp add: s_def Um_def)
  have e: "ell st' = ell st" "m_k st' = m_k st" using r(5,6) by simp_all
  have rows': "list_all (\<lambda>r. length r = ell st) (m_B st')"
    using rows s_len by (simp add: B' list_all_iff)
  have len': "length (m_B st') = m_k st" using Uf by (simp add: B' Um_def)
  show "sketch_inv st'" using l(1,2) rows' len' e by (simp add: sketch_inv_def)
  have "m_B st' \<noteq> []" using len' l(1,2) by auto
  from ncols_rows [OF this rows'] e show "ncols (m_B st') = ell st'" by simp
  have "shrink s \<noteq> []" using s_ne by (simp add: shrink_def Let_def)
  from last_conv_nth [OF this] have z: "shrink s ! (ell st - 1) = 0"
    using shrink_last [OF s_ne] s_len by simp
  have "map2 (*) r (shrink s) ! (ell st - 1) = 0" if "r \<in> set Um" for r
  proof -
    from that rows have "length r = ell st" by (simp add: list_all_iff)
    then show ?thesis using z s_len l(1) by simp
  qed
  then show "all_zero (column (m_B st') (ell st' - 1))"
    by (simp add: all_zero_def column_def B' e list_all_iff)
qed

lemma zero_column_found:
  assumes "all_zero (column M j)" "j < ncols M"
  shows "j \<in> set (zero_cols M)"
  using assms by (auto simp add: zero_cols_def all_zero_def isclose0_def list_all_iff)

lemma nonzero_cols_bound:
  assumes "all_zero (column M (n - 1))" "ncols M = n" "0 < n"
  shows "length (nonzero_cols M) \<le> n - 1"
proof -
  have "[0..<n] = [0..<n - 1] @ [n - 1]" using assms(3) by (cases n) simp_all
  then have "nonzero_cols M = filter (\<lambda>j. \<not> all_zero (column M j)) [0..<n - 1]"
    using assms(1,2) by (simp add: nonzero_cols_def)
  also have "length \<dots> \<le> length [0..<n - 1]" by (rule length_filter_le)
  finally show ?thesis by simp
qed

lemmas z_defs = cz_def g34_def evz_def stz_def

lemma R_z: "m_R stz = [[3, 0], [0, 4]] @ replicate 38 [0, 0]"
  by (simp add: z_defs run_defs eval_nat_numeral split: prod.splits)

lemma feat_z: "features stz evz = Inr [1, 1]"
  by (simp add: features_def set_one_def py_index_def z_defs run_defs split: prod.splits)

lemma sqrt25: "sqrt 25 = 5"
  by (rule real_sqrt_unique) simp_all

lemma proj_z: "mat_vec (m_R stz) [1, 1] = Inr ([3, 4] @ replicate 38 0)"
  by (simp add: R_z mat_vec_def dot_def list_all_iff)

lemma obs_z: "observation stz evz = Inr ([3 / 5, 4 / 5] @ replicate 38 0)"
  by (simp add: observation_def feat_z proj_z normalize_row_def normalize_def l2_norm_def sum_list_replicate sqrt25 Let_def)

lemma B_z: "m_B stz = replicate 40 (replicate 6 0)" "ell stz = 6" "m_k stz = 40" "m_U stz = None"
  by (simp_all add: z_defs run_defs split: prod.splits)

lemma zc: "zero_cols (replicate 40 (replicate 6 0)) = [0, 1, 2, 3, 4, 5]"
  by (simp add: zero_cols_def ncols_def column_def isclose0_def list_all_iff eval_nat_numeral upt_rec)

lemma tc_z: "target_column stz = 0"
  by (simp add: target_column_def B_z zc)

lemma B1_z: "set_column (m_B stz) (target_column stz) ([3 / 5, 4 / 5] @ replicate 38 0) = Inr B34"
  by (simp add: tc_z B_z set_column_def py_index_def ncols_def B34_def eval_nat_numeral)

lemma shrink_z: "shrink [1, 0, 0, 0, 0, 0] = [1, 0, 0, 0, 0, 0]"
  by (simp add: shrink_def)

lemma rebuild_z:
  "rebuild U34 [1, 0, 0, 0, 0, 0] (stz\<lparr>m_B := B34\<rparr>)
     = (None, stz\<lparr>m_B := B34, m_U := Some U34\<rparr>)"
proof -
  have t: "map (take 6) U34 = U34" by (simp add: U34_def)
  have l: "list_all (\<lambda>r. length r = length [1, 0, 0, 0, 0, 0::real]) U34"
    by (simp add: U34_def list_all_iff)
  have "map (\<lambda>r. map2 (*) r [1, 0, 0, 0, 0, 0]) U34 = B34"
    by (simp add: U34_def B34_def eval_nat_numeral)
  with mat_mul_diag [OF l] have "mat_mul U34 (diag [1, 0, 0, 0, 0, 0]) = Inr B34" by simp
  then show ?thesis by (simp add: rebuild_def B_z t shrink_z)
qed

lemma update_z: "update svd34 stz evz = (None, stz\<lparr>m_B := B34, m_U := Some U34\<rparr>)"
  by (simp add: update_def obs_z B1_z svd34_def rebuild_z del: append.simps replicate.simps)

lemma contract_z: "reduced_svd_shape svd34"
  by (simp add: reduced_svd_shape_def svd34_def B34_def U34_def ncols_def)

lemma inv_z: "sketch_inv stz"
  by (simp add: sketch_inv_def B_z list_all_iff)

text \<open>
  The sample of full rank: the sketch \<open>BF\<close> has the zero column 5 only, the observation
  fills it, and the decomposition of \<open>B1F\<close> has the smallest singular value 1, so that
  \<open>\<delta> = 1\<close> in the shrink step.
\<close>

lemma dot_append: "length a = length b \<Longrightarrow> dot (a @ c) (b @ d) = dot a b + dot c d"
  by (simp add: dot_def)

lemma dot_zero_left [simp]: "dot (replicate n 0) v = 0"
proof -
  have "map2 (*) (replicate n 0) v = replicate (min n (length v)) (0::real)"
    by (intro nth_equalityI) simp_all
  then show ?thesis by (simp add: dot_def sum_list_replicate)
qed

lemma dot_zero_right [simp]: "dot v (replicate n 0) = 0"
proof -
  have "map2 (*) v (replicate n 0) = replicate (min (length v) n) (0::real)"
    by (intro nth_equalityI) simp_all
  then show ?thesis by (simp add: dot_def sum_list_replicate)
qed

lemma column_replicate: "column (replicate n r) j = replicate n (r ! j)"
  by (simp add: column_def)

lemma id6: "identity 6 = [[1, 0, 0, 0, 0, 0], [0, 1, 0, 0, 0, 0], [0, 0, 1, 0, 0, 0],
                          [0, 0, 0, 1, 0, 0], [0, 0, 0, 0, 1, 0], [0, 0, 0, 0, 0, 1]]"
  by (simp add: identity_def upt_rec)

lemma upt6: "[0..<6] = [0, 1, 2, 3, 4, 5]"
  by (simp add: upt_rec)

lemma orth_id6: "orthonormal (identity 6)"
  by (simp add: id6 orthonormal_def dot_def upt6)

lemma T_UF: "mat_T UF =
  [[0, 0, 1, 0, 0, 0, 0] @ replicate 33 0, [0, 0, 0, 1, 0, 0, 0] @ replicate 33 0,
   [0, 0, 0, 0, 1, 0, 0] @ replicate 33 0, [0, 0, 0, 0, 0, 1, 0] @ replicate 33 0,
   [0, 0, 0, 0, 0, 0, 1] @ replicate 33 0, [3 / 5, 4 / 5, 0, 0, 0, 0, 0] @ replicate 33 0]"
  by (simp add: mat_T_def UF_def ncols_def upt6 column_append column_replicate)
     (simp add: column_def)

lemma orth_UF: "orthonormal (mat_T UF)"
  unfolding T_UF by (simp add: orthonormal_def upt6 dot_append dot_def sum_list_replicate)

lemma WF: "map (\<lambda>r. map2 (*) r sF) UF = B1F"
  by (simp add: UF_def B1F_def sF_def eval_nat_numeral)

lemma mat_mul_id6: "list_all (\<lambda>r. length r = 6) W \<Longrightarrow> mat_mul W (identity 6) = Inr W"
proof -
  assume a: "list_all (\<lambda>r. length r = 6) W"
  have T: "mat_T (identity 6) = identity 6"
    by (simp add: id6 mat_T_def ncols_def column_def upt6)
  have "map (\<lambda>c. dot r c) (identity 6) = r" if "length r = 6" for r
  proof -
    from that obtain a b c d e f where "r = [a, b, c, d, e, f]"
      by (auto simp add: length_Suc_conv eval_nat_numeral)
    then show ?thesis by (simp add: id6 dot_def)
  qed
  then have "map (\<lambda>r. map (\<lambda>c. dot r c) (identity 6)) W = W"
    using a by (intro map_idI) (simp add: list_all_iff)
  moreover have "length (identity 6) = 6" by (simp add: id6)
  ultimately show ?thesis using a by (simp add: mat_mul_def T)
qed

lemma svdF_ok: "is_svd B1F UF sF (identity 6)"
proof -
  have l: "list_all (\<lambda>r. length r = length sF) UF"
    by (simp add: UF_def sF_def list_all_iff)
  have r: "list_all (\<lambda>r. length r = 6) B1F" by (simp add: B1F_def list_all_iff)
  have "mat_mul UF (diag sF) = Inr B1F" using mat_mul_diag [OF l] by (simp add: WF)
  moreover have "mat_mul B1F (identity 6) = Inr B1F" using r by (rule mat_mul_id6)
  moreover have "ncols B1F = 6" "length B1F = 40" "length UF = 40"
    by (simp_all add: B1F_def UF_def ncols_def)
  moreover have "list_all (\<lambda>r. length r = 6) (identity 6)" "length (identity 6) = 6"
    by (simp_all add: id6)
  ultimately show ?thesis
    using l orth_UF orth_id6 by (simp add: is_svd_def sF_def)
qed

lemma contractF: "svd_contract svdF"
  using svdF_ok by (simp add: svd_contract_def svdF_def)

lemma features_B: "features (st\<lparr>m_B := X\<rparr>) d = features st d"
  by (simp add: features_def cong: option.case_cong sum.case_cong)

lemma observation_B: "observation (st\<lparr>m_B := X\<rparr>) d = observation st d"
  by (simp add: observation_def features_B cong: sum.case_cong)

lemma obs_F: "observation stF evz = Inr ([3 / 5, 4 / 5] @ replicate 38 0)"
  unfolding stF_def observation_B by (rule obs_z)

lemma zc_F: "zero_cols BF = [5]"
  by (simp add: zero_cols_def BF_def ncols_def upt6 column_append column_replicate
        list_all_iff isclose0_def)
     (simp add: column_def isclose0_def)

lemma tc_F: "target_column stF = 5"
  by (simp add: target_column_def stF_def zc_F)

lemma B1_F: "set_column (m_B stF) (target_column stF) ([3 / 5, 4 / 5] @ replicate 38 0) = Inr B1F"
  unfolding tc_F
  by (simp add: stF_def set_column_def py_index_def ncols_def BF_def B1F_def
        eval_nat_numeral)

lemma shrink_F: "shrink sF = [sqrt 3, sqrt 3, sqrt 3, sqrt 3, sqrt 3, 0]"
  by (simp add: shrink_def sF_def)

lemma rebuild_F:
  "rebuild UF sF (stF\<lparr>m_B := B1F\<rparr>) = (None, stF\<lparr>m_B := BF', m_U := Some UF\<rparr>)"
proof -
  have e: "ell stF = 6" by (simp add: stF_def B_z)
  have t: "map (take 6) UF = UF" "take 6 sF = sF" by (simp_all add: UF_def sF_def)
  have l: "list_all (\<lambda>r. length r = length (shrink sF)) UF"
    by (simp add: UF_def sF_def list_all_iff)
  have "map (\<lambda>r. map2 (*) r (shrink sF)) UF = BF'"
    unfolding shrink_F by (simp add: UF_def BF'_def eval_nat_numeral)
  with mat_mul_diag [OF l] have "mat_mul UF (diag (shrink sF)) = Inr BF'" by simp
  then have mm: "mat_mul (map (take (ell (stF\<lparr>m_B := B1F\<rparr>))) UF)
                   (diag (shrink (take (ell (stF\<lparr>m_B := B1F\<rparr>)) sF))) = Inr BF'"
    by (simp add: e t)
  have ne: "take (ell (stF\<lparr>m_B := B1F\<rparr>)) sF \<noteq> []" by (simp add: e t) (simp add: sF_def)
  show ?thesis unfolding rebuild_def Let_def mm using ne by (simp add: e t)
qed

lemma update_F: "update svdF stF evz = (None, stF\<lparr>m_B := BF', m_U := Some UF\<rparr>)"
  by (simp add: update_def obs_F B1_F svdF_def rebuild_F del: append.simps replicate.simps)

lemma inv_F: "sketch_inv stF"
  by (simp add: sketch_inv_def stF_def B_z BF_def list_all_iff)

lemma frob2_F: "frob2 B1F = 21" "frob2 BF' = 15"
  by (simp_all add: frob2_def B1F_def BF'_def sum_list_replicate)

lemma shape_F: "reduced_svd_shape svdF"
  by (simp add: reduced_svd_shape_def svdF_def B1F_def UF_def sF_def ncols_def)

text \<open>
  C9. Let the decomposition return arrays of the documented shapes and let \<open>B\<close> be
  \<open>k\<close> by \<open>ell\<close>, as it is in every reachable object. After every update that
  returns normally \<open>B\<close> has these shapes again, its column \<open>ell - 1\<close> is exactly zero
  (the smallest retained singular value is shrunk to \<open>sqrt (s\<^sup>2 - s\<^sup>2) = 0\<close>), so at
  most \<open>ell - 1\<close> columns are not zero; the search for a zero column finds one, and the
  column that the next update writes is the first one found, not the fallback
  \<open>ell - 1\<close>.
\<close>

theorem last_column_zero_after_update:
  assumes "reduced_svd_shape f" "sketch_inv st" "update f st d = (None, st')"
  shows "sketch_inv st'
         \<and> all_zero (column (m_B st') (ell st' - 1))
         \<and> length (nonzero_cols (m_B st')) \<le> ell st' - 1
         \<and> zero_cols (m_B st') \<noteq> []
         \<and> target_column st' = int (hd (zero_cols (m_B st')))"
proof -
  note u = update_sketch [OF assms]
  from u(1) have pos: "0 < ell st'" by (simp add: sketch_inv_def)
  then have "ell st' - 1 < ncols (m_B st')" using u(3) by simp
  from zero_column_found [OF u(2) this] have ne: "zero_cols (m_B st') \<noteq> []" by auto
  then have "target_column st' = int (hd (zero_cols (m_B st')))"
    by (cases "zero_cols (m_B st')") (simp_all add: target_column_def)
  with u ne nonzero_cols_bound [OF u(2,3) pos] show ?thesis by simp
qed

theorem last_column_zero_after_update_witness:
  "reduced_svd_shape svdF \<and> sketch_inv stF
   \<and> update svdF stF evz = (None, stF\<lparr>m_B := BF', m_U := Some UF\<rparr>)
   \<and> svdF B1F = Inr (UF, sF, identity 6) \<and> (last sF)\<^sup>2 = 1
   \<and> \<not> all_zero (column B1F 5)
   \<and> sketch_inv (stF\<lparr>m_B := BF', m_U := Some UF\<rparr>)
   \<and> all_zero (column BF' 5) \<and> length (nonzero_cols BF') \<le> 5
   \<and> zero_cols BF' \<noteq> []
   \<and> target_column (stF\<lparr>m_B := BF', m_U := Some UF\<rparr>) = int (hd (zero_cols BF'))"
proof -
  have e: "ell (stF\<lparr>m_B := BF', m_U := Some UF\<rparr>) - 1 = 5"
    by (simp add: stF_def B_z)
  have s: "svdF B1F = Inr (UF, sF, identity 6)" "(last sF)\<^sup>2 = 1"
    by (simp_all add: svdF_def sF_def)
  have n: "\<not> all_zero (column B1F 5)"
    by (simp add: all_zero_def column_def B1F_def)
  from last_column_zero_after_update [OF shape_F inv_F update_F] shape_F inv_F update_F s n
  show ?thesis unfolding e by simp
qed

subsection \<open>The norm of the observation\<close>

lemma sum_squares_nonneg: "0 \<le> sum_list (map (\<lambda>x. x * x) (v::real list))"
  by (induction v) simp_all

lemma sum_squares_zero: "sum_list (map (\<lambda>x. x * x) v) = 0 \<longleftrightarrow> all_zero (v::real list)"
proof (induction v)
  case Nil
  show ?case by (simp add: all_zero_def)
next
  case (Cons a v)
  have "a * a + sum_list (map (\<lambda>x. x * x) v) = 0
          \<longleftrightarrow> a * a = 0 \<and> sum_list (map (\<lambda>x. x * x) v) = 0"
    using sum_squares_nonneg [of v] by (intro add_nonneg_eq_0_iff) simp_all
  with Cons show ?case by (simp add: all_zero_def)
qed

lemma l2_norm_zero: "l2_norm v = 0 \<longleftrightarrow> all_zero v"
  by (simp add: l2_norm_def sum_squares_zero)

lemma l2_norm_nonneg: "0 \<le> l2_norm v"
  by (simp add: l2_norm_def sum_squares_nonneg)

lemma sum_squares_scaled:
  "sum_list (map (\<lambda>x. x * x) (map (\<lambda>x. x / n) v)) = sum_list (map (\<lambda>x. x * x) v) / (n * n)"
  for n :: real
  by (induction v) (simp_all add: add_divide_distrib)

lemma l2_norm_normalize: "\<not> all_zero v \<Longrightarrow> l2_norm (normalize v) = 1"
proof -
  assume nz: "\<not> all_zero v"
  define n where "n = l2_norm v"
  have pos: "0 < n" using nz l2_norm_nonneg [of v] l2_norm_zero [of v] by (simp add: n_def)
  have sq: "sum_list (map (\<lambda>x. x * x) v) = n * n"
    using sum_squares_nonneg [of v] by (simp add: n_def l2_norm_def)
  have "normalize v = map (\<lambda>x. x / n) v" using pos by (simp add: normalize_def n_def [symmetric])
  then have "l2_norm (normalize v) = sqrt (sum_list (map (\<lambda>x. x * x) (map (\<lambda>x. x / n) v)))"
    by (simp only: l2_norm_def)
  also have "\<dots> = sqrt (n * n / (n * n))" by (simp only: sum_squares_scaled sq)
  also have "\<dots> = 1" using pos by simp
  finally show ?thesis .
qed

text \<open>
  C6. The observation that the update writes into \<open>B\<close> has the L2 norm 1, for every
  sample whose projection \<open>R x\<close> is not the zero vector. The feature vector \<open>x\<close> has the
  entry 1 at the positions of the user and of the item, and the entries of \<open>R\<close> are
  samples of a normal distribution, so the projection is the zero vector only if the
  drawn samples cancel exactly.
\<close>

theorem observation_norm:
  assumes "features st d = Inr x" "mat_vec (m_R st) x = Inr z" "\<not> all_zero z"
    and "observation st d = Inr y"
  shows "l2_norm y = 1"
proof -
  have "y = normalize z" using assms(1,2,4)
    by (simp add: observation_def normalize_row_def split: if_splits)
  then show ?thesis using l2_norm_normalize [OF assms(3)] by simp
qed

theorem observation_norm_witness:
  "features stz evz = Inr [1, 1] \<and> mat_vec (m_R stz) [1, 1] = Inr ([3, 4] @ replicate 38 0)
   \<and> observation stz evz = Inr ([3 / 5, 4 / 5] @ replicate 38 0)
   \<and> \<not> all_zero ([3, 4] @ replicate 38 0)
   \<and> l2_norm ([3 / 5, 4 / 5] @ replicate 38 0) = 1"
proof -
  have n: "\<not> all_zero ([3, 4] @ replicate 38 0)" by (simp add: all_zero_def)
  from observation_norm [OF feat_z proj_z n obs_z] feat_z proj_z obs_z n
  show ?thesis by blast
qed

subsection \<open>The shrink step and the Frobenius norm\<close>

lemma orthonormalD:
  "orthonormal vs \<Longrightarrow> i < length vs \<Longrightarrow> j < length vs
   \<Longrightarrow> dot (vs ! i) (vs ! j) = (if i = j then 1 else 0)"
  by (simp add: orthonormal_def list_all_iff)

lemma sum_list_upt: "sum_list (map f [0..<n]) = (\<Sum>i<n. f i)" for f :: "nat \<Rightarrow> real"
  by (simp add: interv_sum_list_conv_sum_set_nat atLeast0LessThan)

lemma sum_list_nth: "sum_list xs = (\<Sum>i<length xs. xs ! i)" for xs :: "real list"
  by (simp add: sum_list_sum_nth atLeast0LessThan)

lemma dot_sum: "length a = length b \<Longrightarrow> dot a b = (\<Sum>i<length a. a ! i * b ! i)"
  by (simp add: dot_def sum_list_nth)

lemma squares_sum: "sum_list (map (\<lambda>x. x * x) v) = (\<Sum>i<length v. v ! i * v ! i)"
  for v :: "real list"
  by (simp add: sum_list_nth)

lemma frob2_sum:
  "frob2 M = (\<Sum>a<length M. \<Sum>j<length (M ! a). M ! a ! j * (M ! a ! j))"
  by (simp add: frob2_def sum_list_nth squares_sum)

lemma frob2_scaled_columns:
  assumes rows: "list_all (\<lambda>r. length r = n) Um" and len: "length s = n"
    and unit: "\<And>j. j < n \<Longrightarrow> dot (column Um j) (column Um j) = 1"
  shows "frob2 (map (\<lambda>r. map2 (*) r s) Um) = (\<Sum>j<n. s ! j * s ! j)"
proof -
  have r: "length (Um ! a) = n" if "a < length Um" for a
    using rows that by (simp add: list_all_iff)
  have "frob2 (map (\<lambda>r. map2 (*) r s) Um)
          = (\<Sum>a<length Um. \<Sum>j<n. (Um ! a ! j * s ! j) * (Um ! a ! j * s ! j))"
    unfolding frob2_sum using r len by (intro sum.cong refl) simp_all
  also have "\<dots> = (\<Sum>j<n. \<Sum>a<length Um. (Um ! a ! j * s ! j) * (Um ! a ! j * s ! j))"
    by (rule sum.swap)
  also have "\<dots> = (\<Sum>j<n. (s ! j * s ! j) * (\<Sum>a<length Um. Um ! a ! j * (Um ! a ! j)))"
    by (simp add: sum_distrib_left algebra_simps)
  also have "\<dots> = (\<Sum>j<n. (s ! j * s ! j) * dot (column Um j) (column Um j))"
    by (simp add: dot_sum column_def)
  also have "\<dots> = (\<Sum>j<n. s ! j * s ! j)"
    using unit by simp
  finally show ?thesis .
qed

lemma row_times_orthonormal:
  assumes orth: "orthonormal Vh" and w: "length w = length Vh"
    and rows: "list_all (\<lambda>r. length r = N) Vh" and nc: "ncols Vh = N"
  shows "sum_list (map (\<lambda>x. x * x) (map (\<lambda>c. dot w c) (mat_T Vh)))
           = sum_list (map (\<lambda>x. x * x) w)"
proof -
  let ?n = "length Vh"
  have r: "length (Vh ! i) = N" if "i < ?n" for i
    using rows that by (simp add: list_all_iff)
  have d: "dot w (column Vh c) = (\<Sum>i<?n. w ! i * (Vh ! i ! c))" for c
    using w by (simp add: dot_sum column_def)
  have "sum_list (map (\<lambda>x. x * x) (map (\<lambda>c. dot w c) (mat_T Vh)))
          = (\<Sum>c<N. dot w (column Vh c) * dot w (column Vh c))"
    by (simp add: mat_T_def nc comp_def sum_list_upt)
  also have "\<dots> = (\<Sum>c<N. \<Sum>i<?n. \<Sum>j<?n. (w ! i * (Vh ! i ! c)) * (w ! j * (Vh ! j ! c)))"
    by (simp add: d sum_product)
  also have "\<dots> = (\<Sum>i<?n. \<Sum>c<N. \<Sum>j<?n. (w ! i * (Vh ! i ! c)) * (w ! j * (Vh ! j ! c)))"
    by (rule sum.swap)
  also have "\<dots> = (\<Sum>i<?n. \<Sum>j<?n. \<Sum>c<N. (w ! i * (Vh ! i ! c)) * (w ! j * (Vh ! j ! c)))"
    by (intro sum.cong refl sum.swap)
  also have "\<dots> = (\<Sum>i<?n. \<Sum>j<?n. (w ! i * w ! j) * (\<Sum>c<N. Vh ! i ! c * (Vh ! j ! c)))"
    by (simp add: sum_distrib_left algebra_simps)
  also have "\<dots> = (\<Sum>i<?n. \<Sum>j<?n. (w ! i * w ! j) * dot (Vh ! i) (Vh ! j))"
    using r by (intro sum.cong refl) (simp add: dot_sum)
  also have "\<dots> = (\<Sum>i<?n. \<Sum>j<?n. if i = j then w ! i * w ! i else 0)"
    using orthonormalD [OF orth] by (intro sum.cong refl) simp
  also have "\<dots> = (\<Sum>i<?n. w ! i * w ! i)"
    by simp
  also have "\<dots> = sum_list (map (\<lambda>x. x * x) w)"
    using w by (simp add: squares_sum)
  finally show ?thesis .
qed

lemma frob2_times_orthonormal:
  assumes "orthonormal Vh" "list_all (\<lambda>r. length r = length Vh) W"
    and "list_all (\<lambda>r. length r = N) Vh" "ncols Vh = N"
    and "mat_mul W Vh = Inr A"
  shows "frob2 A = frob2 W"
proof -
  have A: "A = map (\<lambda>r. map (\<lambda>c. dot r c) (mat_T Vh)) W"
    using assms(5) by (simp add: mat_mul_def split: if_splits)
  have e: "map (\<lambda>r. sum_list (map (\<lambda>x. x * x) (map (\<lambda>c. dot r c) (mat_T Vh)))) W
          = map (\<lambda>r. sum_list (map (\<lambda>x. x * x) r)) W"
  proof (intro map_cong refl)
    fix r assume "r \<in> set W"
    with assms(2) have "length r = length Vh" by (simp add: list_all_iff)
    from row_times_orthonormal [OF assms(1) this assms(3,4)]
    show "sum_list (map (\<lambda>x. x * x) (map (\<lambda>c. dot r c) (mat_T Vh)))
            = sum_list (map (\<lambda>x. x * x) r)" .
  qed
  have "frob2 A
          = sum_list (map (\<lambda>r. sum_list (map (\<lambda>x. x * x) (map (\<lambda>c. dot r c) (mat_T Vh)))) W)"
    unfolding frob2_def A map_map comp_def ..
  also have "\<dots> = frob2 W" unfolding e frob2_def ..
  finally show ?thesis .
qed

lemma is_svdD:
  assumes "is_svd A Um s Vh"
  shows "length Um = length A" "length s = min (length A) (ncols A)"
    "list_all (\<lambda>r. length r = length s) Um"
    "length Vh = length s" "list_all (\<lambda>r. length r = ncols A) Vh"
    "sorted (rev s)" "list_all (\<lambda>x. 0 \<le> x) s"
    "orthonormal (mat_T Um)" "orthonormal Vh"
    "case mat_mul Um (diag s) of Inl e \<Rightarrow> False | Inr W \<Rightarrow> mat_mul W Vh = Inr A"
  using assms unfolding is_svd_def by blast+

lemma svd_contract_shape: "svd_contract f \<Longrightarrow> reduced_svd_shape f"
  by (auto simp add: svd_contract_def reduced_svd_shape_def is_svd_def)

lemma is_svd_frob2:
  assumes svd: "is_svd A Um s Vh" and pos: "0 < length s" "0 < length A"
  shows "frob2 A = (\<Sum>j<length s. s ! j * s ! j)"
    and "\<And>j. j < length s \<Longrightarrow> dot (column Um j) (column Um j) = 1"
proof -
  note D = is_svdD [OF svd]
  note Um = D(1,3) and Vh = D(4,5) and orth = D(8,9) and rec = D(10)
  have "Um \<noteq> []" using Um(1) pos(2) by auto
  from ncols_rows [OF this Um(2)] have nc: "ncols Um = length s" .
  show unit: "dot (column Um j) (column Um j) = 1" if "j < length s" for j
    using orthonormalD [OF orth(1), of j j] that nc by (simp add: mat_T_def)
  have "list_all (\<lambda>r. length r = length s) Um" by (rule Um(2))
  from mat_mul_diag [OF this] rec
  have A: "mat_mul (map (\<lambda>r. map2 (*) r s) Um) Vh = Inr A" by simp
  have "Vh \<noteq> []" using Vh(1) pos(1) by auto
  from ncols_rows [OF this Vh(2)] have ncv: "ncols Vh = ncols A" .
  have W: "list_all (\<lambda>r. length r = length Vh) (map (\<lambda>r. map2 (*) r s) Um)"
    using Um(2) Vh(1) by (simp add: list_all_iff)
  have "frob2 A = frob2 (map (\<lambda>r. map2 (*) r s) Um)"
    by (rule frob2_times_orthonormal [OF orth(2) W Vh(2) ncv A])
  also have "\<dots> = (\<Sum>j<length s. s ! j * s ! j)"
    by (rule frob2_scaled_columns [OF Um(2) refl unit])
  finally show "frob2 A = (\<Sum>j<length s. s ! j * s ! j)" .
qed

lemma shrink_nth:
  assumes "sorted (rev s)" "list_all (\<lambda>x. 0 \<le> x) s" "j < length s"
  shows "shrink s ! j * shrink s ! j = s ! j * s ! j - (last s)\<^sup>2"
proof -
  have ne: "s \<noteq> []" using assms(3) by auto
  have l: "last s = s ! (length s - 1)" using ne by (rule last_conv_nth)
  have "s ! (length s - 1) \<le> s ! j"
    using assms(1,3) by (intro sorted_rev_nth_mono) simp_all
  moreover have "0 \<le> s ! (length s - 1)" using assms(2) ne by (simp add: list_all_iff)
  ultimately have "(last s)\<^sup>2 \<le> (s ! j)\<^sup>2" unfolding l by (intro power_mono)
  then have "0 \<le> (s ! j)\<^sup>2 - (last s)\<^sup>2" by simp
  then show ?thesis using assms(3) by (simp add: shrink_def Let_def power2_eq_square)
qed

lemma init_sketch_inv: "sketch_inv (init c g)"
  by (simp add: sketch_inv_def init_def clear_def normal_def int_sqrt_40 list_all_iff)

lemma grow_R_B: "grow_R off st = (r, st') \<Longrightarrow> m_B st' = m_B st \<and> ell st' = ell st \<and> m_k st' = m_k st"
  by (auto simp add: grow_R_def normal_def split: sum.splits)

lemma grow_i_mat_B:
  "grow_i_mat it st = (r, st') \<Longrightarrow> m_B st' = m_B st \<and> ell st' = ell st \<and> m_k st' = m_k st"
  by (auto simp add: grow_i_mat_def Let_def split: sum.splits if_splits)

lemma check_user_B:
  "check_user st d = (r, st') \<Longrightarrow> m_B st' = m_B st \<and> ell st' = ell st \<and> m_k st' = m_k st"
  by (auto simp add: check_user_def new_user_def Let_def split: option.splits if_splits
           dest!: grow_R_B)

lemma check_item_B:
  "check_item st d = (r, st') \<Longrightarrow> m_B st' = m_B st \<and> ell st' = ell st \<and> m_k st' = m_k st"
  by (auto simp add: check_item_def new_item_def Let_def
           split: option.splits if_splits prod.splits dest!: grow_R_B grow_i_mat_B)

lemma check_B:
  "check st d = (r, st') \<Longrightarrow> m_B st' = m_B st \<and> ell st' = ell st \<and> m_k st' = m_k st"
  by (auto simp add: check_def split: option.splits prod.splits
           dest!: check_user_B check_item_B)

lemma check_sketch_inv: "sketch_inv st \<Longrightarrow> check st d = (r, st') \<Longrightarrow> sketch_inv st'"
  using check_B [of st d r st'] by (simp add: sketch_inv_def)

lemma clear_sketch_inv: "sketch_inv st \<Longrightarrow> sketch_inv (clear st)"
  by (simp add: sketch_inv_def clear_def normal_def list_all_iff)

lemma reachable_sketch_inv:
  assumes "reduced_svd_shape f" and "reachable f st"
  shows "sketch_inv st"
  using assms(2)
proof (induction rule: reachable.induct)
  case (reach_init c g)
  show ?case by (rule init_sketch_inv)
next
  case (reach_clear st)
  then show ?case by (simp add: clear_sketch_inv)
next
  case (reach_check st d st')
  then show ?case by (auto intro: check_sketch_inv)
next
  case (reach_update st d st')
  then show ?case using assms(1) by (auto intro: update_sketch(1))
qed

lemma shrink_max:
  assumes "sorted (rev s)" "list_all (\<lambda>x. 0 \<le> x) s"
  shows "shrink s = map (\<lambda>x. sqrt (max (x\<^sup>2 - (last s)\<^sup>2) 0)) s"
proof (cases "s = []")
  case True
  then show ?thesis by (simp add: shrink_def)
next
  case False
  have sq: "(last s)\<^sup>2 \<le> x\<^sup>2" if "x \<in> set s" for x
  proof -
    from that obtain j where j: "j < length s" "x = s ! j" by (auto simp add: in_set_conv_nth)
    have "s ! (length s - 1) \<le> s ! j"
      using assms(1) j(1) by (intro sorted_rev_nth_mono) simp_all
    moreover have "0 \<le> s ! (length s - 1)" using assms(2) False by (simp add: list_all_iff)
    ultimately show ?thesis unfolding j(2) last_conv_nth [OF False] by (intro power_mono)
  qed
  have "sqrt (x\<^sup>2 - (last s)\<^sup>2) = sqrt (max (x\<^sup>2 - (last s)\<^sup>2) 0)"
    if "x \<in> set s" for x
    using sq [OF that] by (simp add: max_def)
  then show ?thesis by (simp add: shrink_def Let_def)
qed

text \<open>
  C5. Let the decomposition return a singular value decomposition of its argument and
  let \<open>B\<close> be \<open>k\<close> by \<open>ell\<close>, as it is in every reachable object. For every update
  that returns normally, the squared Frobenius norm of \<open>B\<close> after the shrink step is the
  one of \<open>B\<close> before it (the sketch with the observation written into its column) less
  \<open>ell\<close> times \<open>\<delta> = s[ell - 1]\<^sup>2\<close>; so it does not increase, whether \<open>\<delta>\<close> is
  positive or 0.
\<close>

theorem shrink_frobenius:
  assumes contract: "svd_contract f" and inv: "sketch_inv st"
    and run: "update f st d = (None, st')"
  shows "\<exists>y B1 Um s Vh.
           observation st d = Inr y
           \<and> set_column (m_B st) (target_column st) y = Inr B1
           \<and> f B1 = Inr (Um, s, Vh)
           \<and> frob2 (m_B st') = frob2 B1 - real (ell st) * (last (take (ell st) s))\<^sup>2
           \<and> frob2 (m_B st') \<le> frob2 B1"
proof -
  from run obtain y B1 Uf sf Vf where
    ob: "observation st d = Inr y" and
    sc: "set_column (m_B st) (target_column st) y = Inr B1" and
    f: "f B1 = Inr (Uf, sf, Vf)" and
    rb: "rebuild Uf sf (st\<lparr>m_B := B1\<rparr>) = (None, st')"
    by (rule update_steps)
  from inv have l: "0 < ell st" "ell st \<le> m_k st" "length (m_B st) = m_k st"
    "list_all (\<lambda>r. length r = ell st) (m_B st)" by (simp_all add: sketch_inv_def)
  then have "m_B st \<noteq> []" by auto
  from ncols_rows [OF this l(4)] have nc: "ncols (m_B st) = ell st" .
  note B1 = set_column_shape [OF sc]
  from contract f have svd: "is_svd B1 Uf sf Vf" unfolding svd_contract_def by blast
  note D = is_svdD [OF svd]
  have sf: "length sf = ell st" using D(2) B1(1,2) nc l by simp
  note rows = D(3) and srt = D(6,7)
  have t: "take (ell st) sf = sf" "map (take (ell st)) Uf = Uf"
    using sf rows by (simp_all add: list_all_iff map_idI)
  have e0: "ell (st\<lparr>m_B := B1\<rparr>) = ell st" by simp
  have B': "m_B st' = map (\<lambda>r. map2 (*) r (shrink sf)) Uf"
    using rebuild_steps(3) [OF rb] unfolding e0 t .
  have pos: "0 < length sf" "0 < length B1" using sf l B1(1) by simp_all
  note s = is_svd_frob2 [OF svd pos]
  have rows': "list_all (\<lambda>r. length r = ell st) Uf" using rows sf by simp
  have "frob2 (m_B st') = (\<Sum>j<ell st. shrink sf ! j * shrink sf ! j)"
    unfolding B' using s(2) sf by (intro frob2_scaled_columns [OF rows']) simp_all
  also have "\<dots> = (\<Sum>j<ell st. sf ! j * sf ! j - (last sf)\<^sup>2)"
    using shrink_nth [OF srt] sf by (intro sum.cong refl) simp
  also have "\<dots> = (\<Sum>j<ell st. sf ! j * sf ! j) - real (ell st) * (last sf)\<^sup>2"
    by (simp add: sum_subtractf)
  also have "(\<Sum>j<ell st. sf ! j * sf ! j) = frob2 B1" using s(1) sf by simp
  finally have e: "frob2 (m_B st') = frob2 B1 - real (ell st) * (last sf)\<^sup>2" .
  then have "frob2 (m_B st') \<le> frob2 B1" by simp
  with ob sc f e t(1) show ?thesis by auto
qed

theorem shrink_frobenius_witness:
  "svd_contract svdF \<and> sketch_inv stF
   \<and> update svdF stF evz = (None, stF\<lparr>m_B := BF', m_U := Some UF\<rparr>)
   \<and> (\<exists>y B1 Um s Vh.
         observation stF evz = Inr y
         \<and> set_column (m_B stF) (target_column stF) y = Inr B1
         \<and> svdF B1 = Inr (Um, s, Vh)
         \<and> frob2 (m_B (stF\<lparr>m_B := BF', m_U := Some UF\<rparr>))
             = frob2 B1 - real (ell stF) * (last (take (ell stF) s))\<^sup>2
         \<and> frob2 (m_B (stF\<lparr>m_B := BF', m_U := Some UF\<rparr>)) \<le> frob2 B1)"
  using shrink_frobenius [OF contractF inv_F update_F] contractF inv_F update_F
  by blast

text \<open>In the sample \<open>\<delta> = 1\<close>, and the squared norm falls from 21 to 15.\<close>

lemma shrink_frobenius_sample:
  "svdF B1F = Inr (UF, sF, identity 6) \<and> (last (take (ell stF) sF))\<^sup>2 = 1
   \<and> frob2 B1F = 21 \<and> frob2 BF' = 15"
  by (simp add: svdF_def frob2_F) (simp add: sF_def stF_def B_z)

end
